theory Spec2Isabelle
  imports Main
begin

section \<open>Symbols, grammars and errors\<close>

text \<open>
  Symbols are Python strings. A grammar is a Python \<open>dict\<close> from a non-terminal to its list
  of productions; the dictionary is kept as an association list in insertion order, which is
  the order \<open>grammar.items()\<close> iterates in.
\<close>

type_synonym symbol = string
type_synonym production = "symbol list"
type_synonym grammar = "(symbol \<times> production list) list"

text \<open>The exceptions the modelled code can raise.\<close>

datatype error = IndexError | KeyError | RecursionError

fun bind_err :: "error + 'a \<Rightarrow> ('a \<Rightarrow> error + 'b) \<Rightarrow> error + 'b" where
  "bind_err (Inl e) f = Inl e"
| "bind_err (Inr x) f = f x"

text \<open>A \<open>for\<close> loop over a list whose body may raise: the first exception ends the loop.\<close>

fun for_each :: "('a \<Rightarrow> 's \<Rightarrow> error + 's) \<Rightarrow> 'a list \<Rightarrow> 's \<Rightarrow> error + 's" where
  "for_each f [] s = Inr s"
| "for_each f (x # xs) s = bind_err (f x s) (for_each f xs)"

section \<open>The CKY parser (cky\_parser.py)\<close>

subsection \<open>CKYParser.load\_grammar\<close>

text \<open>
  \<open>terminal_rules\<close> and \<open>binary_rules\<close> are \<open>defaultdict(list)\<close>s that are only read with
  \<open>.get(key, [])\<close>: total functions with default \<open>[]\<close>.
\<close>

record parser =
  grammar :: grammar
  start_symbol :: symbol
  terminal_rules :: "symbol \<Rightarrow> symbol list"
  binary_rules :: "symbol \<times> symbol \<Rightarrow> symbol list"

definition new_parser :: parser where
  "new_parser = \<lparr>grammar = [], start_symbol = ''S'',
     terminal_rules = (\<lambda>_. []), binary_rules = (\<lambda>_. [])\<rparr>"

fun add_rule :: "symbol \<Rightarrow> production \<Rightarrow> parser \<Rightarrow> parser" where
  "add_rule nt [t] p =
     p\<lparr>terminal_rules := (terminal_rules p)(t := terminal_rules p t @ [nt])\<rparr>"
| "add_rule nt [b, c] p =
     p\<lparr>binary_rules := (binary_rules p)((b, c) := binary_rules p (b, c) @ [nt])\<rparr>"
| "add_rule nt rhs p = p"

definition load_grammar :: "grammar \<Rightarrow> symbol \<Rightarrow> parser \<Rightarrow> parser" where
  "load_grammar g start p =
     fold (\<lambda>(nt, prods). fold (add_rule nt) prods) g (p\<lparr>grammar := g, start_symbol := start\<rparr>)"

subsection \<open>Chart and back-pointers\<close>

text \<open>
  A back-pointer entry is one of the tuples \<open>('terminal', word)\<close>, \<open>('node', tag, i, i)\<close> and
  \<open>('binary', b, c, k)\<close>. A parse tree is a Python tuple whose first component is the label
  and whose other components are sub-tuples or, in a leaf \<open>(nt, word)\<close>, a string.
\<close>

datatype entry = Terminal string | Node symbol nat nat | Binary symbol symbol nat

datatype tree = Str string | Tup symbol "tree list"

text \<open>
  \<open>chart\<close> is an \<open>n \<times> n\<close> list of lists of sets, \<open>back\<close> an \<open>n \<times> n\<close> list of lists of
  \<open>defaultdict(list)\<close>. A set is kept as a duplicate-free list in insertion order; Python
  leaves the iteration order of a set open, and no theorem below depends on it. The field
  \<open>backp\<close> is the source's \<open>back\<close>.
\<close>

type_synonym backcell = "symbol \<Rightarrow> entry list"

record cky =
  chart :: "symbol list list list"
  backp :: "backcell list list"

definition chart_get :: "cky \<Rightarrow> nat \<Rightarrow> nat \<Rightarrow> error + symbol list" where
  "chart_get st i j =
     (if i < length (chart st) \<and> j < length (chart st ! i)
      then Inr (chart st ! i ! j) else Inl IndexError)"

definition back_get :: "backcell list list \<Rightarrow> nat \<Rightarrow> nat \<Rightarrow> error + backcell" where
  "back_get bk i j =
     (if i < length bk \<and> j < length (bk ! i) then Inr (bk ! i ! j) else Inl IndexError)"

definition set_add :: "'a \<Rightarrow> 'a list \<Rightarrow> 'a list" where
  "set_add a xs = (if a \<in> set xs then xs else xs @ [a])"

text \<open>\<open>chart[i][j].add(a)\<close>\<close>

definition chart_add :: "nat \<Rightarrow> nat \<Rightarrow> symbol \<Rightarrow> cky \<Rightarrow> error + cky" where
  "chart_add i j a st =
     (if i < length (chart st) \<and> j < length (chart st ! i)
      then Inr (st\<lparr>chart := (chart st)[i := (chart st ! i)[j := set_add a (chart st ! i ! j)]]\<rparr>)
      else Inl IndexError)"

text \<open>\<open>back[i][j][a].append(e)\<close>\<close>

definition back_append :: "nat \<Rightarrow> nat \<Rightarrow> symbol \<Rightarrow> entry \<Rightarrow> cky \<Rightarrow> error + cky" where
  "back_append i j a e st =
     (if i < length (backp st) \<and> j < length (backp st ! i)
      then Inr (st\<lparr>backp := (backp st)[i := (backp st ! i)
                    [j := (backp st ! i ! j)(a := (backp st ! i ! j) a @ [e])]]\<rparr>)
      else Inl IndexError)"

definition new_chart :: "nat \<Rightarrow> cky" where
  "new_chart n = \<lparr>chart = replicate n (replicate n []),
                  backp = replicate n (replicate n (\<lambda>_. []))\<rparr>"

subsection \<open>CKYParser.parse: filling the chart\<close>

text \<open>Step 1 with POS constraints: the body of the loop over \<open>enumerate(zip(sentence, pos))\<close>.\<close>

definition lift_tag :: "nat \<Rightarrow> symbol \<Rightarrow> symbol \<Rightarrow> cky \<Rightarrow> error + cky" where
  "lift_tag i tag nt st =
     bind_err (chart_get st i i) (\<lambda>cell.
       if nt \<notin> set cell
       then bind_err (chart_add i i nt st) (back_append i i nt (Node tag i i))
       else Inr st)"

definition diag_constrained :: "parser \<Rightarrow> nat \<times> string \<times> symbol \<Rightarrow> cky \<Rightarrow> error + cky" where
  "diag_constrained p = (\<lambda>(i, word, tag) st.
     bind_err (chart_add i i tag st) (\<lambda>st.
     bind_err (back_append i i tag (Terminal word) st) (\<lambda>st.
     for_each (lift_tag i tag) (terminal_rules p tag) st)))"

text \<open>Step 1 without constraints: the body of the loop over \<open>enumerate(sentence)\<close>.\<close>

definition diag_lexical :: "parser \<Rightarrow> nat \<times> string \<Rightarrow> cky \<Rightarrow> error + cky" where
  "diag_lexical p = (\<lambda>(i, word) st.
     for_each (\<lambda>nt st. bind_err (chart_add i i nt st) (back_append i i nt (Terminal word)))
       (terminal_rules p word) st)"

text \<open>Step 2: the loops over \<open>a\<close>, \<open>c\<close>, \<open>b\<close>, \<open>k\<close>, \<open>i\<close> and \<open>span_length\<close>, innermost first.\<close>

definition fill_rule :: "nat \<Rightarrow> nat \<Rightarrow> nat \<Rightarrow> symbol \<Rightarrow> symbol \<Rightarrow> symbol \<Rightarrow> cky \<Rightarrow> error + cky" where
  "fill_rule i j k b c a st =
     bind_err (chart_add i j a st) (back_append i j a (Binary b c k))"

definition fill_right :: "parser \<Rightarrow> nat \<Rightarrow> nat \<Rightarrow> nat \<Rightarrow> symbol \<Rightarrow> symbol \<Rightarrow> cky \<Rightarrow> error + cky" where
  "fill_right p i j k b c st = for_each (fill_rule i j k b c) (binary_rules p (b, c)) st"

definition fill_left :: "parser \<Rightarrow> nat \<Rightarrow> nat \<Rightarrow> nat \<Rightarrow> symbol \<Rightarrow> cky \<Rightarrow> error + cky" where
  "fill_left p i j k b st =
     bind_err (chart_get st (k + 1) j) (\<lambda>cs. for_each (fill_right p i j k b) cs st)"

definition fill_split :: "parser \<Rightarrow> nat \<Rightarrow> nat \<Rightarrow> nat \<Rightarrow> cky \<Rightarrow> error + cky" where
  "fill_split p i j k st =
     bind_err (chart_get st i k) (\<lambda>bs. for_each (fill_left p i j k) bs st)"

definition fill_cell :: "parser \<Rightarrow> nat \<Rightarrow> nat \<Rightarrow> cky \<Rightarrow> error + cky" where
  "fill_cell p span_length i st =
     (let j = i + span_length - 1 in for_each (fill_split p i j) [i..<j] st)"

definition fill_span :: "parser \<Rightarrow> nat \<Rightarrow> nat \<Rightarrow> cky \<Rightarrow> error + cky" where
  "fill_span p n span_length st =
     for_each (fill_cell p span_length) [0..<n - span_length + 1] st"

text \<open>
  The optional argument \<open>pos_constraints\<close> is \<open>None\<close> or a list; \<open>if pos_constraints\<close> is
  Python truthiness, false for \<open>None\<close> and for the empty list.
\<close>

fun truthy :: "'a list option \<Rightarrow> bool" where
  "truthy None = False"
| "truthy (Some xs) = (xs \<noteq> [])"

fun the_list :: "'a list option \<Rightarrow> 'a list" where
  "the_list None = []"
| "the_list (Some xs) = xs"

text \<open>The chart and the back-pointers as they stand after Step 2, for \<open>n > 0\<close>.\<close>

definition fill_chart :: "parser \<Rightarrow> string list \<Rightarrow> symbol list option \<Rightarrow> error + cky" where
  "fill_chart p sentence pos_constraints =
     (let n = length sentence in
      bind_err
        (if truthy pos_constraints
         then for_each (diag_constrained p)
                (zip [0..<n] (zip sentence (the_list pos_constraints))) (new_chart n)
         else for_each (diag_lexical p) (zip [0..<n] sentence) (new_chart n))
        (for_each (fill_span p n) [2..<n + 1]))"

subsection \<open>CKYParser.\_build\_trees\<close>

text \<open>
  The two loops over \<open>left_trees[:max_trees]\<close> and \<open>right_trees[:max_trees]\<close>. The flag says
  whether \<open>return trees\<close> was reached.
\<close>

fun right_loop :: "symbol \<Rightarrow> nat \<Rightarrow> tree \<Rightarrow> tree list \<Rightarrow> tree list \<Rightarrow> bool \<times> tree list" where
  "right_loop nt max_trees left [] trees = (False, trees)"
| "right_loop nt max_trees left (right # rights) trees =
     (let trees' = trees @ [Tup nt [left, right]]
      in if length trees' \<ge> max_trees then (True, trees')
         else right_loop nt max_trees left rights trees')"

fun left_loop :: "symbol \<Rightarrow> nat \<Rightarrow> tree list \<Rightarrow> tree list \<Rightarrow> tree list \<Rightarrow> bool \<times> tree list" where
  "left_loop nt max_trees [] rights trees = (False, trees)"
| "left_loop nt max_trees (left # lefts) rights trees =
     (case right_loop nt max_trees left rights trees of
        (True, trees') \<Rightarrow> (True, trees')
      | (False, trees') \<Rightarrow> left_loop nt max_trees lefts rights trees')"

text \<open>
  The loop over the entries. \<open>rec\<close> stands for the recursive call
  \<open>self._build_trees(back, \<dots>, max_trees)\<close>.
\<close>

fun entries_loop :: "(nat \<Rightarrow> nat \<Rightarrow> symbol \<Rightarrow> error + tree list) \<Rightarrow> nat \<Rightarrow> nat \<Rightarrow> symbol \<Rightarrow> nat
    \<Rightarrow> entry list \<Rightarrow> tree list \<Rightarrow> error + tree list" where
  "entries_loop rec i j nt max_trees [] trees = Inr trees"
| "entries_loop rec i j nt max_trees (Terminal word # es) trees =
     entries_loop rec i j nt max_trees es (trees @ [Tup nt [Str word]])"
| "entries_loop rec i j nt max_trees (Node child_nt ci cj # es) trees =
     bind_err (rec ci cj child_nt) (\<lambda>child_trees.
       entries_loop rec i j nt max_trees es (trees @ map (\<lambda>child. Tup nt [child]) child_trees))"
| "entries_loop rec i j nt max_trees (Binary b c k # es) trees =
     bind_err (rec i k b) (\<lambda>left_trees.
     bind_err (rec (k + 1) j c) (\<lambda>right_trees.
       case left_loop nt max_trees (take max_trees left_trees) (take max_trees right_trees) trees of
         (True, trees') \<Rightarrow> Inr trees'
       | (False, trees') \<Rightarrow> entries_loop rec i j nt max_trees es trees'))"

text \<open>
  The recursion of \<open>_build_trees\<close> follows the back-pointers, which are data. The first
  argument is the number of nested calls the interpreter still allows; a call beyond it
  raises \<open>RecursionError\<close>.
\<close>

fun build_trees :: "nat \<Rightarrow> backcell list list \<Rightarrow> nat \<Rightarrow> nat \<Rightarrow> symbol \<Rightarrow> nat \<Rightarrow> error + tree list" where
  "build_trees 0 bk i j nt max_trees = Inl RecursionError"
| "build_trees (Suc depth) bk i j nt max_trees =
     bind_err (back_get bk i j) (\<lambda>cell.
       entries_loop (\<lambda>i' j' nt'. build_trees depth bk i' j' nt' max_trees)
         i j nt max_trees (take max_trees (cell nt)) [])"

subsection \<open>CKYParser.parse\<close>

definition parse :: "nat \<Rightarrow> parser \<Rightarrow> string list \<Rightarrow> symbol list option
    \<Rightarrow> error + bool \<times> tree list option" where
  "parse depth p sentence pos_constraints =
     (let n = length sentence in
      if n = 0 then Inr (False, None)
      else if truthy pos_constraints \<and> length (the_list pos_constraints) \<noteq> n
      then Inr (False, None)
      else
        bind_err (fill_chart p sentence pos_constraints) (\<lambda>st.
        bind_err (chart_get st 0 (n - 1)) (\<lambda>top.
          if start_symbol p \<in> set top
          then bind_err (build_trees depth (backp st) 0 (n - 1) (start_symbol p) 10)
                 (\<lambda>trees. Inr (True, Some trees))
          else Inr (False, None))))"

section \<open>The chart after filling\<close>

subsection \<open>Cells of a well-shaped chart\<close>

definition wf_chart :: "nat \<Rightarrow> cky \<Rightarrow> bool" where
  "wf_chart n st \<longleftrightarrow> length (chart st) = n \<and> (\<forall>i<n. length (chart st ! i) = n)
     \<and> length (backp st) = n \<and> (\<forall>i<n. length (backp st ! i) = n)"

type_synonym cell = "symbol list \<times> backcell"

definition cell_at :: "cky \<Rightarrow> nat \<Rightarrow> nat \<Rightarrow> cell" where
  "cell_at st i j = (chart st ! i ! j, backp st ! i ! j)"

definition put_cell :: "nat \<Rightarrow> nat \<Rightarrow> cell \<Rightarrow> cky \<Rightarrow> cky" where
  "put_cell i j c st =
     st\<lparr>chart := (chart st)[i := (chart st ! i)[j := fst c]],
        backp := (backp st)[i := (backp st ! i)[j := snd c]]\<rparr>"

definition cell_add :: "symbol \<Rightarrow> entry \<Rightarrow> cell \<Rightarrow> cell" where
  "cell_add a e c = (set_add a (fst c), (snd c)(a := snd c a @ [e]))"

lemma wf_new_chart: "wf_chart n (new_chart n)"
  by (simp add: wf_chart_def new_chart_def)

lemma wf_put_cell: "wf_chart n st \<Longrightarrow> wf_chart n (put_cell i j c st)"
  by (cases "i < n") (auto simp: wf_chart_def put_cell_def nth_list_update)

lemma cell_at_put_cell:
  "wf_chart n st \<Longrightarrow> i < n \<Longrightarrow> j < n \<Longrightarrow>
   cell_at (put_cell i j c st) i' j' = (if i' = i \<and> j' = j then c else cell_at st i' j')"
  by (auto simp: wf_chart_def put_cell_def cell_at_def nth_list_update)

lemma put_cell_twice:
  "wf_chart n st \<Longrightarrow> i < n \<Longrightarrow> put_cell i j c' (put_cell i j c st) = put_cell i j c' st"
  by (simp add: wf_chart_def put_cell_def)

lemma put_cell_same:
  "put_cell i j (cell_at st i j) st = st"
  by (simp add: put_cell_def cell_at_def)

lemma chart_get_put_cell:
  "wf_chart n st \<Longrightarrow> i < n \<Longrightarrow> j < n \<Longrightarrow> i' < n \<Longrightarrow> j' < n \<Longrightarrow>
   chart_get (put_cell i j c st) i' j' = Inr (fst (cell_at (put_cell i j c st) i' j'))"
  by (auto simp: wf_chart_def put_cell_def cell_at_def chart_get_def nth_list_update)

lemma chart_get_wf:
  "wf_chart n st \<Longrightarrow> i < n \<Longrightarrow> j < n \<Longrightarrow> chart_get st i j = Inr (fst (cell_at st i j))"
  by (auto simp: wf_chart_def cell_at_def chart_get_def)

lemma back_get_wf:
  "wf_chart n st \<Longrightarrow> i < n \<Longrightarrow> j < n \<Longrightarrow> back_get (backp st) i j = Inr (snd (cell_at st i j))"
  by (auto simp: wf_chart_def cell_at_def back_get_def)

lemma record_put_cell:
  "wf_chart n st \<Longrightarrow> i < n \<Longrightarrow> j < n \<Longrightarrow>
   bind_err (chart_add i j a (put_cell i j c st)) (back_append i j a e)
     = Inr (put_cell i j (cell_add a e c) st)"
  by (simp add: wf_chart_def put_cell_def chart_add_def back_append_def cell_add_def)

lemma for_each_put_cell:
  assumes "\<And>x c. x \<in> set xs \<Longrightarrow> f x (put_cell i j c st) = Inr (put_cell i j (g x c) st)"
  shows "for_each f xs (put_cell i j c st) = Inr (put_cell i j (fold g xs c) st)"
  using assms by (induction xs arbitrary: c) simp_all

lemma for_each_map: "for_each f (map h xs) s = for_each (\<lambda>x. f (h x)) xs s"
proof (induction xs arbitrary: s)
  case Nil show ?case by simp
next
  case (Cons x xs)
  show ?case by (cases "f (h x) s") (simp_all add: Cons.IH)
qed

lemma for_each_upt:
  assumes "I a s" and "a \<le> b"
    and "\<And>m t. a \<le> m \<Longrightarrow> m < b \<Longrightarrow> I m t \<Longrightarrow> \<exists>t'. f m t = Inr t' \<and> I (Suc m) t'"
  shows "\<exists>s'. for_each f [a..<b] s = Inr s' \<and> I b s'"
  using assms
proof (induction "b - a" arbitrary: a s)
  case 0
  then show ?case by simp
next
  case (Suc d)
  then have ab: "a < b" by simp
  from Suc.prems(3)[OF le_refl ab Suc.prems(1)] obtain t where t: "f a s = Inr t" "I (Suc a) t" by blast
  have "\<exists>s'. for_each f [Suc a..<b] t = Inr s' \<and> I b s'"
  proof (rule Suc.hyps(1))
    show "d = b - Suc a" using Suc.hyps(2) by simp
    show "I (Suc a) t" by fact
    show "Suc a \<le> b" using ab by simp
    show "\<And>m t. Suc a \<le> m \<Longrightarrow> m < b \<Longrightarrow> I m t \<Longrightarrow> \<exists>t'. f m t = Inr t' \<and> I (Suc m) t'"
      using Suc.prems(3) by simp
  qed
  then show ?case using t ab by (simp add: upt_conv_Cons)
qed

subsection \<open>The loops of Step 2 as functions of one cell\<close>

definition comb_right :: "parser \<Rightarrow> nat \<Rightarrow> symbol \<Rightarrow> symbol \<Rightarrow> cell \<Rightarrow> cell" where
  "comb_right p k b c = fold (\<lambda>a. cell_add a (Binary b c k)) (binary_rules p (b, c))"

definition comb_left :: "parser \<Rightarrow> cky \<Rightarrow> nat \<Rightarrow> nat \<Rightarrow> symbol \<Rightarrow> cell \<Rightarrow> cell" where
  "comb_left p st j k b = fold (comb_right p k b) (fst (cell_at st (k + 1) j))"

definition comb_split :: "parser \<Rightarrow> cky \<Rightarrow> nat \<Rightarrow> nat \<Rightarrow> nat \<Rightarrow> cell \<Rightarrow> cell" where
  "comb_split p st i j k = fold (comb_left p st j k) (fst (cell_at st i k))"

definition comb_cell :: "parser \<Rightarrow> cky \<Rightarrow> nat \<Rightarrow> nat \<Rightarrow> cell \<Rightarrow> cell" where
  "comb_cell p st i j = fold (comb_split p st i j) [i..<j]"

lemma fill_right_put:
  assumes "wf_chart n st" "i < n" "j < n"
  shows "fill_right p i j k b c (put_cell i j x st) = Inr (put_cell i j (comb_right p k b c x) st)"
  unfolding fill_right_def comb_right_def
  by (rule for_each_put_cell) (simp add: fill_rule_def record_put_cell[OF assms])

lemma fill_left_put:
  assumes "wf_chart n st" "i < n" "j < n" "k + 1 < n" "i \<noteq> k + 1"
  shows "fill_left p i j k b (put_cell i j x st) = Inr (put_cell i j (comb_left p st j k b x) st)"
proof -
  have "chart_get (put_cell i j x st) (k + 1) j = Inr (fst (cell_at st (k + 1) j))"
    using assms by (simp add: chart_get_put_cell[OF assms(1-3)] cell_at_put_cell[OF assms(1-3)])
  then show ?thesis
    unfolding fill_left_def comb_left_def
    by (simp add: for_each_put_cell[where g = "comb_right p k b"] fill_right_put[OF assms(1-3)])
qed

lemma fill_split_put:
  assumes "wf_chart n st" "i < n" "j < n" "k + 1 < n" "i \<noteq> k + 1" "k \<noteq> j"
  shows "fill_split p i j k (put_cell i j x st) = Inr (put_cell i j (comb_split p st i j k x) st)"
proof -
  have "k < n" using assms(4) by simp
  then have "chart_get (put_cell i j x st) i k = Inr (fst (cell_at st i k))"
    using assms by (simp add: chart_get_put_cell[OF assms(1-3)] cell_at_put_cell[OF assms(1-3)])
  then show ?thesis
    unfolding fill_split_def comb_split_def
    by (simp add: for_each_put_cell[where g = "comb_left p st j k"] fill_left_put[OF assms(1-5)])
qed

lemma fill_cell_put:
  assumes "wf_chart n st" "i \<le> j" "j < n" "j = i + span_length - 1"
  shows "fill_cell p span_length i st
           = Inr (put_cell i j (comb_cell p st i j (cell_at st i j)) st)"
proof -
  have i: "i < n" using assms by simp
  have "for_each (fill_split p i j) [i..<j] (put_cell i j (cell_at st i j) st)
          = Inr (put_cell i j (fold (comb_split p st i j) [i..<j] (cell_at st i j)) st)"
  proof (rule for_each_put_cell)
    fix k x assume "k \<in> set [i..<j]"
    then have "k + 1 < n" "i \<noteq> k + 1" "k \<noteq> j" using assms(3) by auto
    then show "fill_split p i j k (put_cell i j x st) = Inr (put_cell i j (comb_split p st i j k x) st)"
      by (rule fill_split_put[OF assms(1) i assms(3)])
  qed
  then show ?thesis
    using assms(4) by (simp add: fill_cell_def comb_cell_def put_cell_same Let_def)
qed

subsection \<open>The diagonal\<close>

definition empty_cell :: cell where
  "empty_cell = ([], \<lambda>_. [])"

definition lex_cell :: "parser \<Rightarrow> string \<Rightarrow> cell \<Rightarrow> cell" where
  "lex_cell p word = fold (\<lambda>nt. cell_add nt (Terminal word)) (terminal_rules p word)"

definition lift_cell :: "nat \<Rightarrow> symbol \<Rightarrow> symbol \<Rightarrow> cell \<Rightarrow> cell" where
  "lift_cell i tag nt x = (if nt \<notin> set (fst x) then cell_add nt (Node tag i i) x else x)"

definition pos_cell :: "parser \<Rightarrow> nat \<Rightarrow> string \<Rightarrow> symbol \<Rightarrow> cell \<Rightarrow> cell" where
  "pos_cell p i word tag x = fold (lift_cell i tag) (terminal_rules p tag) (cell_add tag (Terminal word) x)"

definition diag_cell :: "parser \<Rightarrow> string list \<Rightarrow> symbol list option \<Rightarrow> nat \<Rightarrow> cell" where
  "diag_cell p sentence pos i =
     (if truthy pos then pos_cell p i (sentence ! i) (the_list pos ! i) empty_cell
      else lex_cell p (sentence ! i) empty_cell)"

definition cell_done :: "parser \<Rightarrow> string list \<Rightarrow> symbol list option \<Rightarrow> cky \<Rightarrow> nat \<Rightarrow> nat \<Rightarrow> bool" where
  "cell_done p sentence pos st i j \<longleftrightarrow>
     cell_at st i j = (if i = j then diag_cell p sentence pos i else comb_cell p st i j empty_cell)"

definition filled :: "parser \<Rightarrow> string list \<Rightarrow> symbol list option \<Rightarrow> cky \<Rightarrow> bool" where
  "filled p sentence pos st \<longleftrightarrow>
     wf_chart (length sentence) st \<and>
     (\<forall>i j. i \<le> j \<and> j < length sentence \<longrightarrow> cell_done p sentence pos st i j)"

lemma cell_at_new_chart: "i < n \<Longrightarrow> j < n \<Longrightarrow> cell_at (new_chart n) i j = empty_cell"
  by (simp add: cell_at_def new_chart_def empty_cell_def)

lemma diag_lexical_put:
  assumes "wf_chart n st" "i < n"
  shows "diag_lexical p (i, word) st = Inr (put_cell i i (lex_cell p word (cell_at st i i)) st)"
proof -
  have "for_each (\<lambda>nt st. bind_err (chart_add i i nt st) (back_append i i nt (Terminal word)))
          (terminal_rules p word) (put_cell i i (cell_at st i i) st)
        = Inr (put_cell i i (fold (\<lambda>nt. cell_add nt (Terminal word)) (terminal_rules p word) (cell_at st i i)) st)"
    by (rule for_each_put_cell) (simp add: record_put_cell[OF assms(1,2,2)])
  then show ?thesis by (simp add: diag_lexical_def lex_cell_def put_cell_same)
qed

lemma lift_tag_put:
  assumes "wf_chart n st" "i < n"
  shows "lift_tag i tag nt (put_cell i i x st) = Inr (put_cell i i (lift_cell i tag nt x) st)"
  using assms
  by (simp add: lift_tag_def lift_cell_def chart_get_put_cell[OF assms(1,2,2)]
      cell_at_put_cell[OF assms(1,2,2)] record_put_cell[OF assms(1,2,2)])

lemma chart_add_put:
  assumes "wf_chart n st" "i < n" "j < n"
  shows "chart_add i j a (put_cell i j c st) = Inr (put_cell i j (set_add a (fst c), snd c) st)"
  using assms by (simp add: wf_chart_def put_cell_def chart_add_def)

lemma back_append_put:
  assumes "wf_chart n st" "i < n" "j < n"
  shows "back_append i j a e (put_cell i j c st)
           = Inr (put_cell i j (fst c, (snd c)(a := snd c a @ [e])) st)"
  using assms by (simp add: wf_chart_def put_cell_def back_append_def)

lemma diag_constrained_put:
  assumes "wf_chart n st" "i < n"
  shows "diag_constrained p (i, word, tag) st
           = Inr (put_cell i i (pos_cell p i word tag (cell_at st i i)) st)"
proof -
  have a: "chart_add i i tag st = Inr (put_cell i i (set_add tag (fst (cell_at st i i)), snd (cell_at st i i)) st)"
    using chart_add_put[OF assms(1,2,2), of tag "cell_at st i i"] by (simp add: put_cell_same)
  have b: "for_each (lift_tag i tag) (terminal_rules p tag) (put_cell i i x st)
        = Inr (put_cell i i (fold (lift_cell i tag) (terminal_rules p tag) x) st)" for x
    by (rule for_each_put_cell) (simp add: lift_tag_put[OF assms])
  show ?thesis
    by (simp add: diag_constrained_def a back_append_put[OF assms(1,2,2)] b pos_cell_def cell_add_def)
qed

lemma comb_cell_cong:
  assumes "\<And>k. i \<le> k \<Longrightarrow> k < j \<Longrightarrow> fst (cell_at st i k) = fst (cell_at st' i k)
              \<and> fst (cell_at st (k + 1) j) = fst (cell_at st' (k + 1) j)"
  shows "comb_cell p st i j = comb_cell p st' i j"
proof -
  have "comb_split p st i j k = comb_split p st' i j k" if "k \<in> set [i..<j]" for k
  proof -
    have e: "fst (cell_at st i k) = fst (cell_at st' i k)"
      "fst (cell_at st (Suc k) j) = fst (cell_at st' (Suc k) j)"
      using assms[of k] that by auto
    have "comb_left p st j k = comb_left p st' j k"
      by (intro ext) (simp add: comb_left_def e)
    then show ?thesis by (simp add: comb_split_def e)
  qed
  then show ?thesis
    unfolding comb_cell_def by (intro ext fold_cong) auto
qed

subsection \<open>Loop invariants\<close>

definition diag_inv :: "parser \<Rightarrow> string list \<Rightarrow> symbol list option \<Rightarrow> nat \<Rightarrow> cky \<Rightarrow> bool" where
  "diag_inv p sentence pos m st \<longleftrightarrow>
     wf_chart (length sentence) st \<and>
     (\<forall>i j. i < length sentence \<and> j < length sentence \<longrightarrow>
        cell_at st i j = (if i = j \<and> i < m then diag_cell p sentence pos i else empty_cell))"

definition before :: "nat \<Rightarrow> nat \<Rightarrow> nat \<Rightarrow> nat \<Rightarrow> bool" where
  "before l m i j \<longleftrightarrow> j - i + 1 < l \<or> (j - i + 1 = l \<and> i < m)"

definition span_inv :: "parser \<Rightarrow> string list \<Rightarrow> symbol list option \<Rightarrow> nat \<Rightarrow> nat \<Rightarrow> cky \<Rightarrow> bool" where
  "span_inv p sentence pos l m st \<longleftrightarrow>
     wf_chart (length sentence) st \<and>
     (\<forall>i j. i \<le> j \<and> j < length sentence \<longrightarrow>
        (if before l m i j then cell_done p sentence pos st i j else cell_at st i j = empty_cell))"

lemma diag_phase:
  assumes "truthy pos \<longrightarrow> length (the_list pos) = length sentence"
  shows "\<exists>st. (if truthy pos
         then for_each (diag_constrained p)
                (zip [0..<length sentence] (zip sentence (the_list pos))) (new_chart (length sentence))
         else for_each (diag_lexical p) (zip [0..<length sentence] sentence) (new_chart (length sentence)))
          = Inr st \<and> diag_inv p sentence pos (length sentence) st"
proof -
  let ?n = "length sentence"
  have init: "diag_inv p sentence pos 0 (new_chart ?n)"
    by (simp add: diag_inv_def wf_new_chart cell_at_new_chart)
  show ?thesis
  proof (cases "truthy pos")
    case True
    then have len: "length (the_list pos) = ?n" using assms by simp
    have z: "zip [0..<?n] (zip sentence (the_list pos))
              = map (\<lambda>i. (i, sentence ! i, the_list pos ! i)) [0..<?n]"
      by (rule nth_equalityI) (simp_all add: len)
    have "\<exists>st. for_each (\<lambda>i. diag_constrained p (i, sentence ! i, the_list pos ! i)) [0..<?n] (new_chart ?n)
            = Inr st \<and> diag_inv p sentence pos ?n st"
    proof (rule for_each_upt[where I = "diag_inv p sentence pos"])
      show "diag_inv p sentence pos 0 (new_chart ?n)" by (rule init)
      show "0 \<le> ?n" by simp
      fix m t assume m: "m < ?n" and inv: "diag_inv p sentence pos m t"
      from inv have wf: "wf_chart ?n t" by (simp add: diag_inv_def)
      from inv m have e: "cell_at t m m = empty_cell" by (simp add: diag_inv_def)
      have "diag_inv p sentence pos (Suc m) (put_cell m m (pos_cell p m (sentence ! m) (the_list pos ! m) empty_cell) t)"
        using inv m True
        by (auto simp: diag_inv_def wf_put_cell cell_at_put_cell[OF wf m m] diag_cell_def)
      then show "\<exists>t'. diag_constrained p (m, sentence ! m, the_list pos ! m) t = Inr t' \<and> diag_inv p sentence pos (Suc m) t'"
        by (simp add: diag_constrained_put[OF wf m] e)
    qed
    then show ?thesis using True by (simp add: z for_each_map)
  next
    case False
    have z: "zip [0..<?n] sentence = map (\<lambda>i. (i, sentence ! i)) [0..<?n]"
      by (rule nth_equalityI) simp_all
    have "\<exists>st. for_each (\<lambda>i. diag_lexical p (i, sentence ! i)) [0..<?n] (new_chart ?n)
            = Inr st \<and> diag_inv p sentence pos ?n st"
    proof (rule for_each_upt[where I = "diag_inv p sentence pos"])
      show "diag_inv p sentence pos 0 (new_chart ?n)" by (rule init)
      show "0 \<le> ?n" by simp
      fix m t assume m: "m < ?n" and inv: "diag_inv p sentence pos m t"
      from inv have wf: "wf_chart ?n t" by (simp add: diag_inv_def)
      from inv m have e: "cell_at t m m = empty_cell" by (simp add: diag_inv_def)
      have "diag_inv p sentence pos (Suc m) (put_cell m m (lex_cell p (sentence ! m) empty_cell) t)"
        using inv m False
        by (auto simp: diag_inv_def wf_put_cell cell_at_put_cell[OF wf m m] diag_cell_def)
      then show "\<exists>t'. diag_lexical p (m, sentence ! m) t = Inr t' \<and> diag_inv p sentence pos (Suc m) t'"
        by (simp add: diag_lexical_put[OF wf m] e)
    qed
    then show ?thesis using False by (simp add: z for_each_map)
  qed
qed

lemma span_step:
  assumes inv: "span_inv p sentence pos l m st" and l: "2 \<le> l" and m: "m < length sentence - l + 1"
    and ln: "l \<le> length sentence"
  shows "\<exists>st'. fill_cell p l m st = Inr st' \<and> span_inv p sentence pos l (Suc m) st'"
proof -
  let ?n = "length sentence"
  define jm where "jm = m + l - 1"
  from inv have wf: "wf_chart ?n st" by (simp add: span_inv_def)
  have mj: "m < jm" "jm < ?n" "m < ?n" "m \<le> jm" "jm - m + 1 = l"
    using l m ln by (auto simp: jm_def)
  have nb: "\<not> before l m m jm" using mj by (auto simp: before_def)
  then have e: "cell_at st m jm = empty_cell"
    using inv mj by (auto simp: span_inv_def)
  define st' where "st' = put_cell m jm (comb_cell p st m jm empty_cell) st"
  have run: "fill_cell p l m st = Inr st'"
    using fill_cell_put[OF wf mj(4) mj(2) jm_def, of p] by (simp add: e st'_def)
  have wf': "wf_chart ?n st'" unfolding st'_def by (rule wf_put_cell[OF wf])
  have at: "cell_at st' i j = (if i = m \<and> j = jm then comb_cell p st m jm empty_cell else cell_at st i j)" for i j
    unfolding st'_def by (rule cell_at_put_cell[OF wf mj(3,2)])
  have same: "comb_cell p st' i j = comb_cell p st i j" if "i < j" "j - i + 1 \<le> l" for i j
  proof (rule comb_cell_cong)
    fix k assume "i \<le> k" "k < j"
    then have "\<not> (i = m \<and> k = jm)" "\<not> (k + 1 = m \<and> j = jm)"
      using that mj by auto
    then show "fst (cell_at st' i k) = fst (cell_at st i k) \<and>
               fst (cell_at st' (k + 1) j) = fst (cell_at st (k + 1) j)"
      by (auto simp: at)
  qed
  have "if before l (Suc m) i j then cell_done p sentence pos st' i j else cell_at st' i j = empty_cell"
    if ij: "i \<le> j" "j < ?n" for i j
  proof (cases "i = m \<and> j = jm")
    case True
    then have "before l (Suc m) i j" using mj by (auto simp: before_def)
    moreover have "cell_done p sentence pos st' i j"
      using True mj same[of m jm] by (simp add: cell_done_def at)
    ultimately show ?thesis by simp
  next
    case False
    then have b: "before l (Suc m) i j = before l m i j"
      using ij mj by (auto simp: before_def)
    have old: "if before l m i j then cell_done p sentence pos st i j else cell_at st i j = empty_cell"
      using inv ij by (simp add: span_inv_def)
    show ?thesis
    proof (cases "before l m i j")
      case True
      then have d: "cell_done p sentence pos st i j" using old by simp
      have "cell_done p sentence pos st' i j"
      proof (cases "i = j")
        case True
        then show ?thesis using d False by (auto simp: cell_done_def at)
      next
        case ne: False
        then have "i < j" using ij by simp
        moreover have "j - i + 1 \<le> l" using True by (auto simp: before_def)
        ultimately have "comb_cell p st' i j = comb_cell p st i j" by (rule same)
        then show ?thesis using d False ne by (auto simp: cell_done_def at)
      qed
      then show ?thesis using True b by simp
    next
      case nb: False
      then show ?thesis using old b False by (auto simp: at)
    qed
  qed
  then have "span_inv p sentence pos l (Suc m) st'"
    using wf' by (simp add: span_inv_def)
  then show ?thesis using run by simp
qed

lemma span_phase:
  assumes inv: "span_inv p sentence pos l 0 st" and l: "2 \<le> l" and ln: "l \<le> length sentence"
  shows "\<exists>st'. fill_span p (length sentence) l st = Inr st' \<and> span_inv p sentence pos (Suc l) 0 st'"
proof -
  let ?n = "length sentence"
  have "\<exists>st'. for_each (fill_cell p l) [0..<?n - l + 1] st = Inr st'
          \<and> span_inv p sentence pos l (?n - l + 1) st'"
  proof (rule for_each_upt[where I = "span_inv p sentence pos l"])
    show "span_inv p sentence pos l 0 st" by fact
    show "0 \<le> ?n - l + 1" by simp
    fix m t assume "m < ?n - l + 1" "span_inv p sentence pos l m t"
    then show "\<exists>t'. fill_cell p l m t = Inr t' \<and> span_inv p sentence pos l (Suc m) t'"
      using span_step[OF _ l _ ln] by blast
  qed
  then obtain st' where st': "fill_span p ?n l st = Inr st'"
      "span_inv p sentence pos l (?n - l + 1) st'"
    by (auto simp: fill_span_def)
  have "before (Suc l) 0 i j = before l (?n - l + 1) i j" if "i \<le> j" "j < ?n" for i j
    using that ln by (auto simp: before_def)
  then have "span_inv p sentence pos (Suc l) 0 st'"
    using st'(2) by (simp add: span_inv_def)
  then show ?thesis using st'(1) by simp
qed

lemma fill_chart_filled:
  assumes "truthy pos \<longrightarrow> length (the_list pos) = length sentence"
  shows "\<exists>st. fill_chart p sentence pos = Inr st \<and> filled p sentence pos st"
proof -
  let ?n = "length sentence"
  from diag_phase[OF assms, of p] obtain st0 where
    st0: "(if truthy pos
         then for_each (diag_constrained p)
                (zip [0..<?n] (zip sentence (the_list pos))) (new_chart ?n)
         else for_each (diag_lexical p) (zip [0..<?n] sentence) (new_chart ?n)) = Inr st0"
    and d: "diag_inv p sentence pos ?n st0" by blast
  have s2: "span_inv p sentence pos 2 0 st0"
    using d by (auto simp: span_inv_def diag_inv_def before_def cell_done_def)
  have "\<exists>st. for_each (fill_span p ?n) [2..<?n + 1] st0 = Inr st \<and> span_inv p sentence pos (?n + 1) 0 st"
  proof (cases "2 \<le> ?n + 1")
    case True
    show ?thesis
    proof (rule for_each_upt[where I = "\<lambda>l. span_inv p sentence pos l 0"])
      show "span_inv p sentence pos 2 0 st0" by fact
      show "2 \<le> ?n + 1" by fact
      fix l t assume "2 \<le> l" "l < ?n + 1" "span_inv p sentence pos l 0 t"
      then show "\<exists>t'. fill_span p ?n l t = Inr t' \<and> span_inv p sentence pos (Suc l) 0 t'"
        using span_phase[of p sentence pos l t] by simp
    qed
  next
    case False
    then have "?n = 0" by (cases sentence) simp_all
    then show ?thesis using d by (simp add: span_inv_def diag_inv_def)
  qed
  then obtain st where st: "for_each (fill_span p ?n) [2..<?n + 1] st0 = Inr st"
    "span_inv p sentence pos (?n + 1) 0 st" by blast
  have "filled p sentence pos st"
    using st(2) by (auto simp: filled_def span_inv_def before_def)
  moreover have "fill_chart p sentence pos = Inr st"
    using st0 st(1) by (simp add: fill_chart_def Let_def)
  ultimately show ?thesis by blast
qed

subsection \<open>What the back-pointers of a cell look like\<close>

definition consistent :: "cell \<Rightarrow> bool" where
  "consistent c \<longleftrightarrow> (\<forall>a. a \<in> set (fst c) \<longleftrightarrow> snd c a \<noteq> [])"

definition all_entries :: "(entry \<Rightarrow> bool) \<Rightarrow> cell \<Rightarrow> bool" where
  "all_entries P c \<longleftrightarrow> (\<forall>a. \<forall>e \<in> set (snd c a). P e)"

lemma fold_invariant:
  assumes "Q x" and "\<And>y z. y \<in> set ys \<Longrightarrow> Q z \<Longrightarrow> Q (f y z)"
  shows "Q (fold f ys x)"
  using assms by (induction ys arbitrary: x) simp_all

lemma consistent_empty: "consistent empty_cell"
  by (simp add: consistent_def empty_cell_def)

lemma all_entries_empty: "all_entries P empty_cell"
  by (simp add: all_entries_def empty_cell_def)

lemma consistent_cell_add: "consistent c \<Longrightarrow> consistent (cell_add a e c)"
  by (auto simp: consistent_def cell_add_def set_add_def)

lemma all_entries_cell_add: "all_entries P c \<Longrightarrow> P e \<Longrightarrow> all_entries P (cell_add a e c)"
  by (auto simp: all_entries_def cell_add_def)

lemma set_fst_cell_add: "set (fst (cell_add a e c)) = insert a (set (fst c))"
  by (auto simp: cell_add_def set_add_def)

text \<open>Cells of span at least two.\<close>

definition split_ok :: "cky \<Rightarrow> nat \<Rightarrow> nat \<Rightarrow> entry \<Rightarrow> bool" where
  "split_ok st i j e \<longleftrightarrow>
     (\<exists>b c k. e = Binary b c k \<and> i \<le> k \<and> k < j \<and>
        b \<in> set (fst (cell_at st i k)) \<and> c \<in> set (fst (cell_at st (k + 1) j)))"

lemma comb_cell_structure:
  assumes "consistent x" "all_entries (split_ok st i j) x"
  shows "consistent (comb_cell p st i j x) \<and> all_entries (split_ok st i j) (comb_cell p st i j x)"
  unfolding comb_cell_def
proof (rule fold_invariant[where Q = "\<lambda>c. consistent c \<and> all_entries (split_ok st i j) c"])
  show "consistent x \<and> all_entries (split_ok st i j) x" using assms by simp
  fix k z assume k: "k \<in> set [i..<j]" and z: "consistent z \<and> all_entries (split_ok st i j) z"
  show "consistent (comb_split p st i j k z) \<and> all_entries (split_ok st i j) (comb_split p st i j k z)"
    unfolding comb_split_def
  proof (rule fold_invariant[where Q = "\<lambda>c. consistent c \<and> all_entries (split_ok st i j) c"])
    show "consistent z \<and> all_entries (split_ok st i j) z" by (rule z)
    fix b z1 assume b: "b \<in> set (fst (cell_at st i k))"
      and z1: "consistent z1 \<and> all_entries (split_ok st i j) z1"
    show "consistent (comb_left p st j k b z1) \<and> all_entries (split_ok st i j) (comb_left p st j k b z1)"
      unfolding comb_left_def
    proof (rule fold_invariant[where Q = "\<lambda>c. consistent c \<and> all_entries (split_ok st i j) c"])
      show "consistent z1 \<and> all_entries (split_ok st i j) z1" by (rule z1)
      fix c z2 assume c: "c \<in> set (fst (cell_at st (k + 1) j))"
        and z2: "consistent z2 \<and> all_entries (split_ok st i j) z2"
      have ok: "split_ok st i j (Binary b c k)"
        using k b c by (auto simp: split_ok_def)
      show "consistent (comb_right p k b c z2) \<and> all_entries (split_ok st i j) (comb_right p k b c z2)"
        unfolding comb_right_def
        by (rule fold_invariant[where Q = "\<lambda>c. consistent c \<and> all_entries (split_ok st i j) c"])
          (use z2 ok in \<open>auto intro: consistent_cell_add all_entries_cell_add\<close>)
    qed
  qed
qed

text \<open>Diagonal cells filled from the lexical rules.\<close>

lemma lex_cell_structure:
  "consistent (lex_cell p w empty_cell) \<and> all_entries (\<lambda>e. e = Terminal w) (lex_cell p w empty_cell)"
  unfolding lex_cell_def
  by (rule fold_invariant[where Q = "\<lambda>c. consistent c \<and> all_entries (\<lambda>e. e = Terminal w) c"])
    (auto intro: consistent_cell_add all_entries_cell_add consistent_empty all_entries_empty)

lemma set_fst_fold_cell_add:
  "set (fst (fold (\<lambda>a. cell_add a (h a)) xs x)) = set (fst x) \<union> set xs"
  by (induction xs arbitrary: x) (auto simp: set_fst_cell_add)

lemma set_fst_lex_cell: "set (fst (lex_cell p w x)) = set (fst x) \<union> set (terminal_rules p w)"
  unfolding lex_cell_def by (rule set_fst_fold_cell_add)

text \<open>Diagonal cells filled from a POS tag.\<close>

definition tag_cell :: "nat \<Rightarrow> string \<Rightarrow> symbol \<Rightarrow> cell \<Rightarrow> bool" where
  "tag_cell i w tag c \<longleftrightarrow>
     snd c tag = [Terminal w] \<and> consistent c \<and>
     (\<forall>a. a \<noteq> tag \<longrightarrow> snd c a = [] \<or> snd c a = [Node tag i i])"

lemma pos_cell_structure: "tag_cell i w tag (pos_cell p i w tag empty_cell)"
  unfolding pos_cell_def
proof (rule fold_invariant[where Q = "tag_cell i w tag"])
  show "tag_cell i w tag (cell_add tag (Terminal w) empty_cell)"
    by (auto simp: tag_cell_def cell_add_def empty_cell_def consistent_def set_add_def)
  fix nt z assume "tag_cell i w tag z"
  then show "tag_cell i w tag (lift_cell i tag nt z)"
    by (auto simp: tag_cell_def lift_cell_def cell_add_def consistent_def set_add_def)
qed

section \<open>Tree extraction\<close>

lemma right_loop_bounds:
  assumes "length trees < m" "right_loop nt m l rs trees = (flag, ts)"
  shows "length trees \<le> length ts \<and> (rs \<noteq> [] \<longrightarrow> length trees < length ts)
         \<and> (if flag then length ts = m else length ts < m)"
  using assms
proof (induction rs arbitrary: trees)
  case Nil
  then show ?case by auto
next
  case (Cons r rs)
  show ?case
  proof (cases "m \<le> Suc (length trees)")
    case True
    then show ?thesis using Cons.prems by (auto simp: Let_def)
  next
    case False
    then have "right_loop nt m l rs (trees @ [Tup nt [l, r]]) = (flag, ts)"
      using Cons.prems by (simp add: Let_def)
    from Cons.IH[OF _ this] False show ?thesis by auto
  qed
qed

lemma left_loop_bounds:
  assumes "length trees < m" "left_loop nt m ls rs trees = (flag, ts)"
  shows "length trees \<le> length ts \<and> (ls \<noteq> [] \<and> rs \<noteq> [] \<longrightarrow> length trees < length ts)
         \<and> (if flag then length ts = m else length ts < m)"
  using assms
proof (induction ls arbitrary: trees)
  case Nil
  then show ?case by auto
next
  case (Cons l ls)
  obtain f1 t1 where r: "right_loop nt m l rs trees = (f1, t1)" by (cases "right_loop nt m l rs trees")
  note b = right_loop_bounds[OF Cons.prems(1) r]
  show ?case
  proof (cases f1)
    case True
    then show ?thesis using Cons.prems(2) r b by auto
  next
    case False
    then have "left_loop nt m ls rs t1 = (flag, ts)" using Cons.prems(2) r by simp
    from Cons.IH[OF _ this] b False show ?thesis by auto
  qed
qed

lemma entries_loop_binary_bound:
  assumes "\<forall>e \<in> set es. \<exists>b c k. e = Binary b c k" "length trees < m"
    "entries_loop rec i j nt m es trees = Inr ts"
  shows "length ts \<le> m"
  using assms
proof (induction es arbitrary: trees)
  case Nil
  then show ?case by simp
next
  case (Cons e es)
  then obtain b c k where e: "e = Binary b c k" by auto
  from Cons.prems(3) e obtain l where l: "rec i k b = Inr l" by (cases "rec i k b") auto
  from Cons.prems(3) e l obtain r where r: "rec (k + 1) j c = Inr r" by (cases "rec (k + 1) j c") auto
  obtain f1 t1 where ll: "left_loop nt m (take m l) (take m r) trees = (f1, t1)"
    by (cases "left_loop nt m (take m l) (take m r) trees")
  note b = left_loop_bounds[OF Cons.prems(2) ll]
  show ?case
  proof (cases f1)
    case True
    then show ?thesis using Cons.prems(3) e l r ll b by auto
  next
    case False
    then have "entries_loop rec i j nt m es t1 = Inr ts" using Cons.prems(3) e l r ll by simp
    from Cons.IH[OF _ _ this] Cons.prems(1) b False show ?thesis by auto
  qed
qed

lemma entries_loop_binary_nonempty:
  assumes "\<forall>e \<in> set es. \<exists>b c k l r. e = Binary b c k \<and> rec i k b = Inr l \<and> l \<noteq> []
              \<and> rec (k + 1) j c = Inr r \<and> r \<noteq> []"
    "length trees < m"
  shows "\<exists>ts. entries_loop rec i j nt m es trees = Inr ts \<and> length trees \<le> length ts
           \<and> (es \<noteq> [] \<longrightarrow> ts \<noteq> [])"
  using assms
proof (induction es arbitrary: trees)
  case Nil
  then show ?case by simp
next
  case (Cons e es)
  then obtain b c k l r where e: "e = Binary b c k" "rec i k b = Inr l" "l \<noteq> []"
    "rec (k + 1) j c = Inr r" "r \<noteq> []" by auto
  obtain f1 t1 where ll: "left_loop nt m (take m l) (take m r) trees = (f1, t1)"
    by (cases "left_loop nt m (take m l) (take m r) trees")
  have ne: "take m l \<noteq> []" "take m r \<noteq> []" using e Cons.prems(2) by auto
  note b = left_loop_bounds[OF Cons.prems(2) ll]
  show ?case
  proof (cases f1)
    case True
    then show ?thesis using e ll b ne by auto
  next
    case False
    then have lt: "length t1 < m" using b by simp
    from Cons.IH[OF _ lt] Cons.prems(1) obtain ts where
      ts: "entries_loop rec i j nt m es t1 = Inr ts" "length t1 \<le> length ts" by auto
    then show ?thesis using e ll b ne False by auto
  qed
qed

lemma entries_loop_terminal:
  assumes "\<forall>e \<in> set es. e = Terminal w"
  shows "entries_loop rec i j nt m es trees = Inr (trees @ replicate (length es) (Tup nt [Str w]))"
  using assms
proof (induction es arbitrary: trees)
  case Nil
  then show ?case by simp
next
  case (Cons e es)
  then show ?case by (simp add: replicate_app_Cons_same)
qed

lemma filled_wf: "filled p sentence pos st \<Longrightarrow> wf_chart (length sentence) st"
  by (simp add: filled_def)

lemma filled_diag:
  "filled p sentence pos st \<Longrightarrow> i < length sentence \<Longrightarrow> cell_at st i i = diag_cell p sentence pos i"
  by (simp add: filled_def cell_done_def)

lemma filled_upper:
  "filled p sentence pos st \<Longrightarrow> i < j \<Longrightarrow> j < length sentence \<Longrightarrow>
   cell_at st i j = comb_cell p st i j empty_cell"
  by (simp add: filled_def cell_done_def)

lemma filled_upper_structure:
  assumes "filled p sentence pos st" "i < j" "j < length sentence"
  shows "consistent (cell_at st i j)" "all_entries (split_ok st i j) (cell_at st i j)"
  using comb_cell_structure[OF consistent_empty all_entries_empty, where st = st and i = i and j = j and p = p]
    filled_upper[OF assms] by simp_all

lemma filled_consistent:
  assumes "filled p sentence pos st" "i \<le> j" "j < length sentence"
  shows "consistent (cell_at st i j)"
proof (cases "i = j")
  case True
  then show ?thesis
    using filled_diag[OF assms(1), of i] assms(3) lex_cell_structure[of p "sentence ! i"]
      pos_cell_structure[of i "sentence ! i" "the_list pos ! i" p]
    by (auto simp: diag_cell_def tag_cell_def)
next
  case False
  then show ?thesis using filled_upper_structure(1)[OF assms(1) _ assms(3), of i] assms(2) by simp
qed

lemma build_trees_unfold:
  assumes "filled p sentence pos st" "i < length sentence" "j < length sentence"
  shows "build_trees (Suc d) (backp st) i j a m =
         entries_loop (\<lambda>i' j' nt'. build_trees d (backp st) i' j' nt' m) i j a m
           (take m (snd (cell_at st i j) a)) []"
  by (simp add: back_get_wf[OF filled_wf[OF assms(1)] assms(2,3)])

declare build_trees.simps(2) [simp del]

lemma build_trees_tag:
  assumes f: "filled p sentence pos st" and t: "truthy pos" and i: "i < length sentence"
    and m: "1 \<le> m"
  shows "build_trees (Suc d) (backp st) i i (the_list pos ! i) m
           = Inr [Tup (the_list pos ! i) [Str (sentence ! i)]]"
proof -
  have "snd (cell_at st i i) (the_list pos ! i) = [Terminal (sentence ! i)]"
    using filled_diag[OF f i] t pos_cell_structure[of i "sentence ! i" "the_list pos ! i" p]
    by (simp add: diag_cell_def tag_cell_def)
  then show ?thesis using m by (simp add: build_trees_unfold[OF f i i])
qed

text \<open>The cap applies at every non-terminal and span.\<close>

lemma build_trees_capped:
  assumes f: "filled p sentence pos st" and ij: "i \<le> j" "j < length sentence"
    and m: "1 \<le> m" and r: "build_trees d (backp st) i j a m = Inr ts"
  shows "length ts \<le> m"
proof -
  from r obtain d' where d: "d = Suc d'" by (cases d) auto
  have i: "i < length sentence" using ij by simp
  let ?rec = "\<lambda>i' j' nt'. build_trees d' (backp st) i' j' nt' m"
  let ?es = "take m (snd (cell_at st i j) a)"
  have run: "entries_loop ?rec i j a m ?es [] = Inr ts"
    using r d by (simp add: build_trees_unfold[OF f i ij(2)])
  show ?thesis
  proof (cases "i = j")
    case False
    then have "all_entries (split_ok st i j) (cell_at st i j)"
      using filled_upper_structure(2)[OF f _ ij(2), of i] ij(1) by simp
    then have "\<forall>e \<in> set ?es. \<exists>b c k. e = Binary b c k"
      unfolding all_entries_def split_ok_def by (meson in_set_takeD)
    then show ?thesis using entries_loop_binary_bound[OF _ _ run] m by simp
  next
    case True
    show ?thesis
    proof (cases "truthy pos")
      case False
      then have "all_entries (\<lambda>e. e = Terminal (sentence ! i)) (cell_at st i i)"
        using filled_diag[OF f i] lex_cell_structure[of p "sentence ! i"] by (simp add: diag_cell_def)
      then have "\<forall>e \<in> set ?es. e = Terminal (sentence ! i)"
        using True by (auto simp: all_entries_def dest!: in_set_takeD)
      from entries_loop_terminal[OF this, of ?rec i j a m "[]"] run show ?thesis by auto
    next
      case pos: True
      let ?tag = "the_list pos ! i"
      have tc: "tag_cell i (sentence ! i) ?tag (cell_at st i i)"
        using filled_diag[OF f i] pos pos_cell_structure[of i "sentence ! i" ?tag p]
        by (simp add: diag_cell_def)
      show ?thesis
      proof (cases "a = ?tag")
        case True
        then have "?es = [Terminal (sentence ! i)]" using tc \<open>i = j\<close> m by (simp add: tag_cell_def)
        then show ?thesis using run m by auto
      next
        case False
        then consider "?es = []" | "?es = [Node ?tag i i]"
          using tc \<open>i = j\<close> m by (auto simp: tag_cell_def)
        then show ?thesis
        proof cases
          case 1
          from run[unfolded 1] show ?thesis by simp
        next
          case 2
          from run 2 obtain d'' where d'': "d' = Suc d''" by (cases d') auto
          show ?thesis
            using run 2 m by (auto simp: d'' build_trees_tag[OF f pos i m])
        qed
      qed
    qed
  qed
qed

text \<open>A non-terminal of a cell has a tree, when the recursion may go deep enough.\<close>

lemma build_trees_nonempty:
  assumes f: "filled p sentence pos st" and m: "1 \<le> m"
  shows "i \<le> j \<Longrightarrow> j < length sentence \<Longrightarrow> a \<in> set (fst (cell_at st i j)) \<Longrightarrow> j - i + 2 \<le> d \<Longrightarrow>
         \<exists>ts. build_trees d (backp st) i j a m = Inr ts \<and> ts \<noteq> []"
proof (induction d arbitrary: i j a)
  case 0
  then show ?case by simp
next
  case (Suc d)
  have i: "i < length sentence" using Suc.prems by simp
  let ?rec = "\<lambda>i' j' nt'. build_trees d (backp st) i' j' nt' m"
  let ?es = "take m (snd (cell_at st i j) a)"
  have "snd (cell_at st i j) a \<noteq> []"
    using filled_consistent[OF f Suc.prems(1,2)] Suc.prems(3) by (simp add: consistent_def)
  then have ne: "?es \<noteq> []" using m by (cases "snd (cell_at st i j) a") auto
  show ?case
  proof (cases "i = j")
    case False
    then have lt: "i < j" using Suc.prems(1) by simp
    have "all_entries (split_ok st i j) (cell_at st i j)"
      by (rule filled_upper_structure(2)[OF f lt Suc.prems(2)])
    then have ok: "\<forall>e \<in> set ?es. split_ok st i j e"
      by (auto simp: all_entries_def dest!: in_set_takeD)
    have "\<forall>e \<in> set ?es. \<exists>b c k l r. e = Binary b c k \<and> ?rec i k b = Inr l \<and> l \<noteq> []
              \<and> ?rec (k + 1) j c = Inr r \<and> r \<noteq> []"
    proof
      fix e assume "e \<in> set ?es"
      with ok obtain b c k where e: "e = Binary b c k" "i \<le> k" "k < j"
        "b \<in> set (fst (cell_at st i k))" "c \<in> set (fst (cell_at st (k + 1) j))"
        by (auto simp: split_ok_def)
      have "\<exists>l. ?rec i k b = Inr l \<and> l \<noteq> []"
        using Suc.IH[of i k b] e Suc.prems(2,4) by simp
      moreover have "\<exists>r. ?rec (k + 1) j c = Inr r \<and> r \<noteq> []"
        using Suc.IH[of "k + 1" j c] e Suc.prems(2,4) by simp
      ultimately show "\<exists>b c k l r. e = Binary b c k \<and> ?rec i k b = Inr l \<and> l \<noteq> []
              \<and> ?rec (k + 1) j c = Inr r \<and> r \<noteq> []"
        using e(1) by blast
    qed
    from entries_loop_binary_nonempty[OF this, of "[]" m a] m ne
    show ?thesis by (simp add: build_trees_unfold[OF f i Suc.prems(2)])
  next
    case True
    show ?thesis
    proof (cases "truthy pos")
      case False
      then have "all_entries (\<lambda>e. e = Terminal (sentence ! i)) (cell_at st i i)"
        using filled_diag[OF f i] lex_cell_structure[of p "sentence ! i"] by (simp add: diag_cell_def)
      then have "\<forall>e \<in> set ?es. e = Terminal (sentence ! i)"
        using True by (auto simp: all_entries_def dest!: in_set_takeD)
      from entries_loop_terminal[OF this, of ?rec i j a m "[]"] ne
      show ?thesis by (simp add: build_trees_unfold[OF f i Suc.prems(2)])
    next
      case pos: True
      let ?tag = "the_list pos ! i"
      have tc: "tag_cell i (sentence ! i) ?tag (cell_at st i i)"
        using filled_diag[OF f i] pos pos_cell_structure[of i "sentence ! i" ?tag p]
        by (simp add: diag_cell_def)
      show ?thesis
      proof (cases "a = ?tag")
        case True
        then show ?thesis using build_trees_tag[OF f pos i m, of d] \<open>i = j\<close> by simp
      next
        case False
        then have es: "?es = [Node ?tag i i]"
          using tc \<open>i = j\<close> m ne by (auto simp: tag_cell_def)
        from Suc.prems(4) obtain d' where d': "d = Suc d'" by (cases d) auto
        show ?thesis
          using es by (simp add: build_trees_unfold[OF f i Suc.prems(2)] d' build_trees_tag[OF f pos i m])
      qed
    qed
  qed
qed

section \<open>Derivations of a grammar\<close>

definition epsilon :: symbol where
  "epsilon = [CHR 0xCE, CHR 0xB5]"

definition keys :: "grammar \<Rightarrow> symbol set" where
  "keys g = fst ` set g"

definition rule :: "grammar \<Rightarrow> symbol \<Rightarrow> production \<Rightarrow> bool" where
  "rule g A rhs \<longleftrightarrow> (\<exists>ps. (A, ps) \<in> set g \<and> rhs \<in> set ps)"

inductive derives :: "grammar \<Rightarrow> symbol list \<Rightarrow> symbol list \<Rightarrow> bool" for g where
  d_nil: "derives g [] []"
| d_term: "x \<notin> keys g \<Longrightarrow> derives g xs w \<Longrightarrow> derives g (x # xs) (x # w)"
| d_eps: "rule g A [epsilon] \<Longrightarrow> derives g xs w \<Longrightarrow> derives g (A # xs) w"
| d_rule: "rule g A rhs \<Longrightarrow> rhs \<noteq> [epsilon] \<Longrightarrow> derives g rhs u \<Longrightarrow> derives g xs w
            \<Longrightarrow> derives g (A # xs) (u @ w)"

definition on_rhs :: "grammar \<Rightarrow> symbol \<Rightarrow> bool" where
  "on_rhs g x \<longleftrightarrow> (\<exists>A rhs. rule g A rhs \<and> x \<in> set rhs)"

definition cnf :: "grammar \<Rightarrow> symbol \<Rightarrow> bool" where
  "cnf g start \<longleftrightarrow> (\<forall>A rhs. rule g A rhs \<longrightarrow>
      (\<exists>t. rhs = [t] \<and> t \<notin> keys g \<and> t \<noteq> epsilon) \<or>
      (\<exists>B C. rhs = [B, C] \<and> B \<in> keys g \<and> C \<in> keys g) \<or>
      (rhs = [epsilon] \<and> A = start \<and> \<not> on_rhs g start))"

lemma rule_key: "rule g A rhs \<Longrightarrow> A \<in> keys g"
  by (force simp: rule_def keys_def)

lemma derives_append:
  "derives g xs u \<Longrightarrow> derives g ys v \<Longrightarrow> derives g (xs @ ys) (u @ v)"
proof (induction rule: derives.induct)
  case (d_rule A rhs u xs w)
  have "derives g (A # (xs @ ys)) (u @ (w @ v))"
    using d_rule.hyps(1,2,3) d_rule.IH(2)[OF d_rule.prems] by (rule derives.d_rule)
  then show ?case by simp
qed (auto intro: derives.intros)

lemma derives_split:
  "derives g zs w \<Longrightarrow> zs = xs @ ys \<Longrightarrow> \<exists>u v. w = u @ v \<and> derives g xs u \<and> derives g ys v"
proof (induction arbitrary: xs rule: derives.induct)
  case d_nil
  then show ?case by (auto intro: derives.intros)
next
  case (d_term x zs w)
  show ?case
  proof (cases xs)
    case Nil
    then show ?thesis using d_term by (auto intro: derives.intros)
  next
    case (Cons a xs')
    then have "zs = xs' @ ys" "a = x" using d_term.prems by auto
    from d_term.IH[OF this(1)] obtain u v where "w = u @ v" "derives g xs' u" "derives g ys v" by blast
    then show ?thesis using Cons \<open>a = x\<close> d_term.hyps(1)
      by (intro exI[of _ "x # u"] exI[of _ v]) (auto intro: derives.intros)
  qed
next
  case (d_eps A zs w)
  show ?case
  proof (cases xs)
    case Nil
    then show ?thesis using d_eps by (auto intro: derives.intros)
  next
    case (Cons a xs')
    then have "zs = xs' @ ys" "a = A" using d_eps.prems by auto
    from d_eps.IH[OF this(1)] obtain u v where "w = u @ v" "derives g xs' u" "derives g ys v" by blast
    then show ?thesis using Cons \<open>a = A\<close> d_eps.hyps(1)
      by (intro exI[of _ u] exI[of _ v]) (auto intro: derives.intros)
  qed
next
  case (d_rule A rhs u0 zs w)
  show ?case
  proof (cases xs)
    case Nil
    then have "derives g ys (u0 @ w)" using d_rule by (auto intro: derives.intros)
    then show ?thesis using Nil by (auto intro: derives.intros)
  next
    case (Cons a xs')
    then have "zs = xs' @ ys" "a = A" using d_rule.prems by auto
    from d_rule.IH(2)[OF this(1)] obtain u v where "w = u @ v" "derives g xs' u" "derives g ys v" by blast
    then show ?thesis using Cons \<open>a = A\<close> d_rule.hyps
      by (intro exI[of _ "u0 @ u"] exI[of _ v]) (auto intro: derives.intros)
  qed
qed

lemma derives_single_term: "x \<notin> keys g \<Longrightarrow> derives g [x] w \<longleftrightarrow> w = [x]"
  by (auto elim: derives.cases intro: derives.intros dest: rule_key)

lemma derives_nil_iff: "derives g [] w \<longleftrightarrow> w = []"
  by (auto elim: derives.cases intro: derives.intros)

lemma derives_single_key:
  "derives g [A] w \<longleftrightarrow>
     (A \<notin> keys g \<and> w = [A]) \<or> (rule g A [epsilon] \<and> w = []) \<or>
     (\<exists>rhs. rule g A rhs \<and> rhs \<noteq> [epsilon] \<and> derives g rhs w)"
  by (auto elim!: derives.cases[of g "[A]" w] intro: derives.intros simp: derives_nil_iff
      dest: derives.d_rule[OF _ _ _ d_nil])

section \<open>The chart and the derivations\<close>

text \<open>The reverse lookup tables hold the rules of the grammar.\<close>

lemma add_rule_tables:
  "set (terminal_rules (add_rule nt rhs p) t) = set (terminal_rules p t) \<union> (if rhs = [t] then {nt} else {})"
  "set (binary_rules (add_rule nt rhs p) bc)
     = set (binary_rules p bc) \<union> (if rhs = [fst bc, snd bc] then {nt} else {})"
  by (induction nt rhs p rule: add_rule.induct; cases bc; auto)+

lemma fold_add_rule_tables:
  "set (terminal_rules (fold (add_rule nt) ps p) t)
     = set (terminal_rules p t) \<union> (if [t] \<in> set ps then {nt} else {})"
  "set (binary_rules (fold (add_rule nt) ps p) bc)
     = set (binary_rules p bc) \<union> (if [fst bc, snd bc] \<in> set ps then {nt} else {})"
  by (induction ps arbitrary: p; auto simp: add_rule_tables split: if_splits)+

lemma fold_grammar_tables:
  "set (terminal_rules (fold (\<lambda>(nt, prods). fold (add_rule nt) prods) g p) t)
     = set (terminal_rules p t) \<union> {A. rule g A [t]}"
  "set (binary_rules (fold (\<lambda>(nt, prods). fold (add_rule nt) prods) g p) bc)
     = set (binary_rules p bc) \<union> {A. rule g A [fst bc, snd bc]}"
  by (induction g arbitrary: p; auto simp: fold_add_rule_tables rule_def split: if_splits)+

lemma load_grammar_tables:
  "set (terminal_rules (load_grammar g start new_parser) t) = {A. rule g A [t]}"
  "set (binary_rules (load_grammar g start new_parser) (b, c)) = {A. rule g A [b, c]}"
  "start_symbol (load_grammar g start new_parser) = start"
proof -
  have s: "start_symbol (fold (add_rule nt) ps p) = start_symbol p" for nt ps p
  proof (induction ps arbitrary: p)
    case (Cons a ps)
    then show ?case by (cases "(nt, a, p)" rule: add_rule.cases) auto
  qed simp
  have "start_symbol (fold (\<lambda>(nt, prods). fold (add_rule nt) prods) g p) = start_symbol p" for p
    by (induction g arbitrary: p) (auto simp: s)
  then show "start_symbol (load_grammar g start new_parser) = start"
    by (simp add: load_grammar_def)
qed (simp_all add: load_grammar_def fold_grammar_tables new_parser_def)

text \<open>The non-terminals of a filled cell.\<close>

lemma set_fst_comb_right:
  "set (fst (comb_right p k b c x)) = set (fst x) \<union> set (binary_rules p (b, c))"
  unfolding comb_right_def by (rule set_fst_fold_cell_add)

lemma set_fst_fold_union:
  assumes "\<And>y z. y \<in> set ys \<Longrightarrow> set (fst (f y z)) = set (fst z) \<union> G y"
  shows "set (fst (fold f ys x)) = set (fst x) \<union> (\<Union>y \<in> set ys. G y)"
  using assms by (induction ys arbitrary: x) auto

lemma set_fst_comb_cell:
  "set (fst (comb_cell p st i j x)) = set (fst x) \<union>
     {a. \<exists>k b c. i \<le> k \<and> k < j \<and> b \<in> set (fst (cell_at st i k))
          \<and> c \<in> set (fst (cell_at st (k + 1) j)) \<and> a \<in> set (binary_rules p (b, c))}"
proof -
  have l: "set (fst (comb_left p st j k b z)) = set (fst z) \<union>
      (\<Union>c \<in> set (fst (cell_at st (k + 1) j)). set (binary_rules p (b, c)))" for k b z
    unfolding comb_left_def by (rule set_fst_fold_union) (rule set_fst_comb_right)
  have s: "set (fst (comb_split p st i j k z)) = set (fst z) \<union>
      (\<Union>b \<in> set (fst (cell_at st i k)). \<Union>c \<in> set (fst (cell_at st (k + 1) j)). set (binary_rules p (b, c)))" for k z
    unfolding comb_split_def by (rule set_fst_fold_union) (rule l)
  have "set (fst (comb_cell p st i j x)) = set (fst x) \<union>
      (\<Union>k \<in> set [i..<j]. \<Union>b \<in> set (fst (cell_at st i k)). \<Union>c \<in> set (fst (cell_at st (k + 1) j)). set (binary_rules p (b, c)))"
    unfolding comb_cell_def by (rule set_fst_fold_union) (rule s)
  also have "(\<Union>k \<in> set [i..<j]. \<Union>b \<in> set (fst (cell_at st i k)). \<Union>c \<in> set (fst (cell_at st (k + 1) j)). set (binary_rules p (b, c)))
     = {a. \<exists>k b c. i \<le> k \<and> k < j \<and> b \<in> set (fst (cell_at st i k))
          \<and> c \<in> set (fst (cell_at st (k + 1) j)) \<and> a \<in> set (binary_rules p (b, c))}"
    by fastforce
  finally show ?thesis .
qed

definition slice :: "'a list \<Rightarrow> nat \<Rightarrow> nat \<Rightarrow> 'a list" where
  "slice xs i j = take (j - i + 1) (drop i xs)"

lemma slice_single: "i < length xs \<Longrightarrow> slice xs i i = [xs ! i]"
  by (simp add: slice_def take_Suc_conv_app_nth)

lemma slice_append:
  assumes "i \<le> k" "k < j"
  shows "slice xs i k @ slice xs (k + 1) j = slice xs i j"
proof -
  have a: "j - i + 1 = (k - i + 1) + (j - k)" "j - (k + 1) + 1 = j - k" "k - i + 1 + i = k + 1"
    using assms by auto
  show ?thesis
    unfolding slice_def a(1) a(2) take_add drop_drop a(3) ..
qed

lemma length_slice: "i \<le> j \<Longrightarrow> j < length xs \<Longrightarrow> length (slice xs i j) = j - i + 1"
  by (simp add: slice_def)

lemma set_slice: "set (slice xs i j) \<subseteq> set xs"
  by (metis slice_def set_drop_subset set_take_subset subset_trans)

lemma derives_empty_cnf:
  assumes "cnf g start"
  shows "derives g xs w \<Longrightarrow> w = [] \<Longrightarrow> \<forall>X \<in> set xs. rule g X [epsilon]"
proof (induction rule: derives.induct)
  case (d_rule A rhs u xs w)
  then have "\<forall>X \<in> set rhs. rule g X [epsilon]" by simp
  moreover have "rule g X [epsilon] \<Longrightarrow> \<not> on_rhs g X \<and> X \<in> keys g" for X
    using assms by (auto simp: cnf_def dest: rule_key)
  moreover have "\<forall>X \<in> set rhs. on_rhs g X" using d_rule.hyps(1) unfolding on_rhs_def by blast
  moreover have "rhs \<noteq> []" using assms d_rule.hyps(1) by (auto simp: cnf_def)
  ultimately have False by (cases rhs) auto
  then show ?case by simp
qed auto

lemma cnf_binary_nonempty:
  assumes "cnf g start" "rule g A [B, C]"
  shows "\<not> derives g [B] []" "\<not> derives g [C] []"
proof -
  have e: "rule g X [epsilon] \<Longrightarrow> \<not> on_rhs g X" for X
    using assms(1) by (auto simp: cnf_def)
  have "on_rhs g B" "on_rhs g C"
    using assms(2) unfolding on_rhs_def by (metis list.set_intros(1,2))+
  then show "\<not> derives g [B] []" "\<not> derives g [C] []"
    using derives_empty_cnf[OF assms(1), of "[B]" "[]"] derives_empty_cnf[OF assms(1), of "[C]" "[]"] e
    by auto
qed

lemma derives_cnf_cases:
  assumes "cnf g start" "w \<noteq> []"
  shows "derives g [A] w \<and> A \<in> keys g \<longleftrightarrow>
     (\<exists>t. w = [t] \<and> rule g A [t] \<and> t \<noteq> epsilon) \<or>
     (\<exists>B C u v. rule g A [B, C] \<and> w = u @ v \<and> u \<noteq> [] \<and> v \<noteq> []
         \<and> derives g [B] u \<and> B \<in> keys g \<and> derives g [C] v \<and> C \<in> keys g)"
    (is "?L \<longleftrightarrow> ?T \<or> ?B")
proof
  assume ?L
  then obtain rhs where r: "rule g A rhs" "rhs \<noteq> [epsilon]" "derives g rhs w"
    using assms(2) by (subst (asm) derives_single_key) auto
  from assms(1) r(1,2) consider t where "rhs = [t]" "t \<notin> keys g" "t \<noteq> epsilon"
    | B C where "rhs = [B, C]" "B \<in> keys g" "C \<in> keys g"
    unfolding cnf_def by blast
  then show "?T \<or> ?B"
  proof cases
    case 1
    then show ?thesis using r by (auto simp: derives_single_term)
  next
    case 2
    from derives_split[OF r(3), of "[B]" "[C]"] 2 obtain u v where
      uv: "w = u @ v" "derives g [B] u" "derives g [C] v" by auto
    have "u \<noteq> []" "v \<noteq> []"
      using cnf_binary_nonempty[OF assms(1), of A B C] r(1) 2 uv by auto
    then show ?thesis using r(1) 2 uv by blast
  qed
next
  assume "?T \<or> ?B"
  then show ?L
  proof
    assume ?T
    then obtain t where t: "w = [t]" "rule g A [t]" "t \<noteq> epsilon" by blast
    then have "t \<notin> keys g" using assms(1) unfolding cnf_def by fastforce
    then have "derives g [t] [t]" by (simp add: derives_single_term)
    then have "derives g [A] ([t] @ [])" using t by (intro derives.d_rule[OF _ _ _ d_nil]) auto
    then show ?L using t rule_key by auto
  next
    assume ?B
    then obtain B C u v where b: "rule g A [B, C]" "w = u @ v" "derives g [B] u" "derives g [C] v"
      by blast
    have "derives g ([B] @ [C]) (u @ v)" using b(3,4) by (rule derives_append)
    then have "derives g [A] ((u @ v) @ [])" using b(1)
      by (intro derives.d_rule[OF _ _ _ d_nil]) auto
    then show ?L using b rule_key by auto
  qed
qed

lemma chart_cells_derive:
  assumes c: "cnf g start" and e: "epsilon \<notin> set sentence"
    and f: "filled (load_grammar g start new_parser) sentence None st"
  shows "i \<le> j \<Longrightarrow> j < length sentence \<Longrightarrow>
     set (fst (cell_at st i j)) = {A \<in> keys g. derives g [A] (slice sentence i j)}"
proof (induction "j - i" arbitrary: i j rule: less_induct)
  case less
  let ?p = "load_grammar g start new_parser"
  have ne: "slice sentence i j \<noteq> []"
    using length_slice[OF less.prems] by auto
  show ?case
  proof (cases "i = j")
    case True
    have i: "i < length sentence" using less.prems by simp
    have w: "sentence ! i \<noteq> epsilon" using e i by (metis nth_mem)
    have "set (fst (cell_at st i i)) = {A. rule g A [sentence ! i]}"
      using filled_diag[OF f i]
      by (simp add: diag_cell_def set_fst_lex_cell empty_cell_def load_grammar_tables)
    also have "\<dots> = {A \<in> keys g. derives g [A] [sentence ! i]}"
      using derives_cnf_cases[OF c, of "[sentence ! i]"] w by (auto simp: Cons_eq_append_conv)
    finally show ?thesis using True i by (simp add: slice_single)
  next
    case False
    then have lt: "i < j" using less.prems by simp
    have IH1: "set (fst (cell_at st i k)) = {A \<in> keys g. derives g [A] (slice sentence i k)}"
      if "i \<le> k" "k < j" for k
      using less.hyps[of k i] that less.prems by simp
    have IH2: "set (fst (cell_at st (k + 1) j)) = {A \<in> keys g. derives g [A] (slice sentence (k + 1) j)}"
      if "i \<le> k" "k < j" for k
      using less.hyps[of j "k + 1"] that less.prems by simp
    have "set (fst (cell_at st i j)) =
       {a. \<exists>k b c. i \<le> k \<and> k < j \<and> b \<in> set (fst (cell_at st i k))
          \<and> c \<in> set (fst (cell_at st (k + 1) j)) \<and> rule g a [b, c]}"
      using filled_upper[OF f lt less.prems(2)]
      by (simp add: set_fst_comb_cell empty_cell_def load_grammar_tables)
    also have "\<dots> = {a. \<exists>k b c. i \<le> k \<and> k < j \<and> rule g a [b, c]
          \<and> b \<in> keys g \<and> derives g [b] (slice sentence i k)
          \<and> c \<in> keys g \<and> derives g [c] (slice sentence (k + 1) j)}"
    proof (intro set_eqI iffI; clarify)
      fix a k b c'
      assume h: "i \<le> k" "k < j" "b \<in> set (fst (cell_at st i k))"
        "c' \<in> set (fst (cell_at st (k + 1) j))" "rule g a [b, c']"
      show "\<exists>k b c. i \<le> k \<and> k < j \<and> rule g a [b, c]
          \<and> b \<in> keys g \<and> derives g [b] (slice sentence i k)
          \<and> c \<in> keys g \<and> derives g [c] (slice sentence (k + 1) j)"
        using h IH1[OF h(1,2)] IH2[OF h(1,2)] by blast
    next
      fix a k b c'
      assume h: "i \<le> k" "k < j" "rule g a [b, c']" "b \<in> keys g" "derives g [b] (slice sentence i k)"
        "c' \<in> keys g" "derives g [c'] (slice sentence (k + 1) j)"
      show "\<exists>k b c. i \<le> k \<and> k < j \<and> b \<in> set (fst (cell_at st i k))
          \<and> c \<in> set (fst (cell_at st (k + 1) j)) \<and> rule g a [b, c]"
        using h IH1[OF h(1,2)] IH2[OF h(1,2)] by blast
    qed
    also have "\<dots> = {A \<in> keys g. derives g [A] (slice sentence i j)}"
    proof (intro set_eqI iffI; clarify)
      fix a k b c'
      assume h: "i \<le> k" "k < j" "rule g a [b, c']" "b \<in> keys g" "derives g [b] (slice sentence i k)"
        "c' \<in> keys g" "derives g [c'] (slice sentence (k + 1) j)"
      have "slice sentence i k \<noteq> []" "slice sentence (k + 1) j \<noteq> []"
        using length_slice[of i k sentence] length_slice[of "k + 1" j sentence] h less.prems by auto
      then have "\<exists>B C u v. rule g a [B, C] \<and> slice sentence i j = u @ v \<and> u \<noteq> [] \<and> v \<noteq> []
         \<and> derives g [B] u \<and> B \<in> keys g \<and> derives g [C] v \<and> C \<in> keys g"
        using h slice_append[OF h(1,2), of sentence, symmetric]
        by (intro exI[of _ b] exI[of _ c'] exI[of _ "slice sentence i k"]
            exI[of _ "slice sentence (k + 1) j"]) simp
      then have "derives g [a] (slice sentence i j) \<and> a \<in> keys g"
        using derives_cnf_cases[OF c ne, of a] by simp
      then show "a \<in> keys g \<and> derives g [a] (slice sentence i j)" by simp
    next
      fix a assume "a \<in> keys g" "derives g [a] (slice sentence i j)"
      then have "(\<exists>t. slice sentence i j = [t] \<and> rule g a [t] \<and> t \<noteq> epsilon) \<or>
        (\<exists>B C u v. rule g a [B, C] \<and> slice sentence i j = u @ v \<and> u \<noteq> [] \<and> v \<noteq> []
         \<and> derives g [B] u \<and> B \<in> keys g \<and> derives g [C] v \<and> C \<in> keys g)"
        using derives_cnf_cases[OF c ne, of a] by simp
      moreover have "length (slice sentence i j) \<ge> 2" using length_slice[OF less.prems] lt by simp
      ultimately obtain B C u v where b: "rule g a [B, C]" "slice sentence i j = u @ v" "u \<noteq> []" "v \<noteq> []"
         "derives g [B] u" "B \<in> keys g" "derives g [C] v" "C \<in> keys g" by auto
      define k where "k = i + length u - 1"
      have lu: "length u + length v = j - i + 1"
        using length_slice[OF less.prems] b(2) by (metis length_append)
      have pos: "0 < length u" "0 < length v" using b(3,4) by auto
      have k: "i \<le> k" "k < j" using pos lu lt unfolding k_def by linarith+
      have "slice sentence i k @ slice sentence (k + 1) j = u @ v"
        using slice_append[OF k, of sentence] b(2) by simp
      moreover have "length (slice sentence i k) = length u"
        using length_slice[of i k sentence] k less.prems pos unfolding k_def by simp
      ultimately have "slice sentence i k = u" "slice sentence (k + 1) j = v" by auto
      then show "\<exists>k b c. i \<le> k \<and> k < j \<and> rule g a [b, c]
          \<and> b \<in> keys g \<and> derives g [b] (slice sentence i k)
          \<and> c \<in> keys g \<and> derives g [c] (slice sentence (k + 1) j)"
        using k b by blast
    qed
    finally show ?thesis .
  qed
qed

section \<open>Properties of parse\<close>

lemma fst_cell_at: "fst (cell_at st i j) = chart st ! i ! j"
  by (simp add: cell_at_def)

lemma parse_cases:
  "parse depth p sentence pos =
     (if sentence = [] \<or> (truthy pos \<and> length (the_list pos) \<noteq> length sentence)
      then Inr (False, None)
      else bind_err (fill_chart p sentence pos) (\<lambda>st.
        if start_symbol p \<in> set (chart st ! 0 ! (length sentence - 1))
        then bind_err (build_trees depth (backp st) 0 (length sentence - 1) (start_symbol p) 10)
               (\<lambda>trees. Inr (True, Some trees))
        else Inr (False, None)))"
proof (cases "sentence = [] \<or> (truthy pos \<and> length (the_list pos) \<noteq> length sentence)")
  case True
  then show ?thesis by (auto simp: parse_def Let_def)
next
  case False
  then have ok: "truthy pos \<longrightarrow> length (the_list pos) = length sentence" and ne: "sentence \<noteq> []" by auto
  from fill_chart_filled[OF ok, of p] obtain st where
    st: "fill_chart p sentence pos = Inr st" "filled p sentence pos st" by blast
  have "chart_get st 0 (length sentence - 1) = Inr (chart st ! 0 ! (length sentence - 1))"
    using chart_get_wf[OF filled_wf[OF st(2)], of 0 "length sentence - 1"] ne
    by (simp add: fst_cell_at)
  then show ?thesis using ok ne st(1) by (auto simp: parse_def Let_def)
qed

lemma parse_run:
  assumes ne: "sentence \<noteq> []" and ok: "truthy pos \<longrightarrow> length (the_list pos) = length sentence"
  obtains st where "fill_chart p sentence pos = Inr st" "filled p sentence pos st"
    "parse depth p sentence pos =
      (if start_symbol p \<in> set (chart st ! 0 ! (length sentence - 1))
        then bind_err (build_trees depth (backp st) 0 (length sentence - 1) (start_symbol p) 10)
               (\<lambda>trees. Inr (True, Some trees))
        else Inr (False, None))"
proof -
  from fill_chart_filled[OF ok, of p] obtain st where
    st: "fill_chart p sentence pos = Inr st" "filled p sentence pos st" by blast
  show ?thesis
    by (rule that[OF st]) (use ne ok st(1) in \<open>auto simp: parse_cases\<close>)
qed

lemma unknown_token_cells:
  assumes f: "filled p sentence pos st" and np: "\<not> truthy pos" and i: "i < length sentence"
    and u: "terminal_rules p (sentence ! i) = []"
  shows "a \<le> i \<Longrightarrow> i \<le> b \<Longrightarrow> b < length sentence \<Longrightarrow> chart st ! a ! b = []"
proof (induction "b - a" arbitrary: a b rule: less_induct)
  case less
  show ?case
  proof (cases "a = b")
    case True
    then have "a = i" "b = i" using less.prems by auto
    then show ?thesis
      using filled_diag[OF f i] np u
      by (simp add: diag_cell_def lex_cell_def empty_cell_def fst_cell_at[symmetric])
  next
    case False
    then have lt: "a < b" using less.prems by simp
    have cover: "fst (cell_at st a k) = [] \<or> fst (cell_at st (k + 1) b) = []"
      if "a \<le> k" "k < b" for k
    proof (cases "i \<le> k")
      case True
      then show ?thesis using less.hyps[of k a] that less.prems by (simp add: fst_cell_at)
    next
      case False
      then show ?thesis using less.hyps[of b "k + 1"] that less.prems by (simp add: fst_cell_at)
    qed
    have "x \<notin> set (fst (cell_at st a b))" for x
    proof
      assume "x \<in> set (fst (cell_at st a b))"
      then obtain k y z where k: "a \<le> k" "k < b" "y \<in> set (fst (cell_at st a k))"
          "z \<in> set (fst (cell_at st (k + 1) b))"
        using filled_upper[OF f lt less.prems(3)] by (auto simp: set_fst_comb_cell empty_cell_def)
      then show False using cover[OF k(1,2)] by auto
    qed
    then have "fst (cell_at st a b) = []" by (cases "fst (cell_at st a b)") auto
    then show ?thesis by (simp add: fst_cell_at)
  qed
qed

text \<open>A small grammar in Chomsky normal form, used to instantiate the theorems below.\<close>

definition demo_grammar :: grammar where
  "demo_grammar = [(''S'', [[''A'', ''B'']]), (''A'', [[''a'']]), (''B'', [[''b'']])]"

definition demo_parser :: parser where
  "demo_parser = load_grammar demo_grammar ''S'' new_parser"

lemma demo_parse:
  "parse 3 demo_parser [''a'', ''b''] None
     = Inr (True, Some [Tup ''S'' [Tup ''A'' [Str ''a''], Tup ''B'' [Str ''b'']]])"
  by code_simp

lemma cnf_demo_grammar: "cnf demo_grammar ''S''"
  by (auto simp: cnf_def rule_def keys_def demo_grammar_def epsilon_def)

text \<open>
  C4. Whenever \<open>parse\<close> succeeds, the list of trees it returns has at most
  \<open>MAX_TREES = 10\<close> elements, and in the chart of that parse every call of
  \<open>_build_trees\<close> that returns, for any non-terminal and any span, returns at most 10 trees.
\<close>


theorem build_trees_capped_at_root:
  assumes "parse depth p sentence pos = Inr (True, Some trees)"
  shows "length trees \<le> 10 \<and>
    (\<exists>st. fill_chart p sentence pos = Inr st \<and>
      (\<forall>d i j nt ts. i \<le> j \<and> j < length sentence \<and> build_trees d (backp st) i j nt 10 = Inr ts
          \<longrightarrow> length ts \<le> 10))"
proof -
  have ne: "sentence \<noteq> []" and ok: "truthy pos \<longrightarrow> length (the_list pos) = length sentence"
    using assms by (auto simp: parse_cases split: if_splits)
  from parse_run[OF ne ok, of p depth] obtain st where
    st: "fill_chart p sentence pos = Inr st" "filled p sentence pos st"
    "parse depth p sentence pos =
      (if start_symbol p \<in> set (chart st ! 0 ! (length sentence - 1))
        then bind_err (build_trees depth (backp st) 0 (length sentence - 1) (start_symbol p) 10)
               (\<lambda>trees. Inr (True, Some trees))
        else Inr (False, None))" by blast
  have cap: "length ts \<le> 10"
    if "i \<le> j" "j < length sentence" "build_trees d (backp st) i j nt 10 = Inr ts" for d i j nt ts
    using build_trees_capped[OF st(2) that(1,2) _ that(3)] by simp
  have "build_trees depth (backp st) 0 (length sentence - 1) (start_symbol p) 10 = Inr trees"
    using assms st(3)
    by (cases "build_trees depth (backp st) 0 (length sentence - 1) (start_symbol p) 10")
      (auto split: if_splits)
  then have "length trees \<le> 10" using cap[of 0 "length sentence - 1"] ne by simp
  then show ?thesis using st(1) cap by blast
qed

theorem build_trees_capped_at_root_witness:
  "parse 3 demo_parser [''a'', ''b''] None
     = Inr (True, Some [Tup ''S'' [Tup ''A'' [Str ''a''], Tup ''B'' [Str ''b'']]]) \<and>
   length [Tup ''S'' [Tup ''A'' [Str ''a''], Tup ''B'' [Str ''b'']]] \<le> 10 \<and>
    (\<exists>st. fill_chart demo_parser [''a'', ''b''] None = Inr st \<and>
      (\<forall>d i j nt ts. i \<le> j \<and> j < length [''a'', ''b''] \<and> build_trees d (backp st) i j nt 10 = Inr ts
          \<longrightarrow> length ts \<le> 10))"
  using build_trees_capped_at_root[OF demo_parse] demo_parse by simp

text \<open>
  C3. With or without POS constraints, \<open>parse\<close> reports success exactly when it returns a
  non-empty list of trees; when the start symbol is in the top cell, \<open>_build_trees\<close> yields
  at least one tree from the back-pointers. The recursion of \<open>_build_trees\<close> is at most one
  call deeper than the sentence is long, which is what the hypothesis on \<open>depth\<close> provides.
\<close>


theorem success_iff_trees:
  assumes "length sentence < depth"
  shows "\<exists>ok trees. parse depth p sentence pos = Inr (ok, trees) \<and>
           (ok \<longleftrightarrow> (\<exists>ts. trees = Some ts \<and> ts \<noteq> [])) \<and>
           (\<forall>st. sentence \<noteq> [] \<and> fill_chart p sentence pos = Inr st \<and>
              (truthy pos \<longrightarrow> length (the_list pos) = length sentence) \<and>
              start_symbol p \<in> set (chart st ! 0 ! (length sentence - 1)) \<longrightarrow>
              (\<exists>ts. build_trees depth (backp st) 0 (length sentence - 1) (start_symbol p) 10 = Inr ts
                 \<and> ts \<noteq> [] \<and> ok \<and> trees = Some ts))"
proof (cases "sentence = [] \<or> (truthy pos \<and> length (the_list pos) \<noteq> length sentence)")
  case True
  then have "parse depth p sentence pos = Inr (False, None)" by (simp add: parse_cases)
  then show ?thesis using True by auto
next
  case False
  then have ne: "sentence \<noteq> []" and ok: "truthy pos \<longrightarrow> length (the_list pos) = length sentence"
    by auto
  from parse_run[OF ne ok, of p depth] obtain st where
    st: "fill_chart p sentence pos = Inr st" "filled p sentence pos st"
    "parse depth p sentence pos =
      (if start_symbol p \<in> set (chart st ! 0 ! (length sentence - 1))
        then bind_err (build_trees depth (backp st) 0 (length sentence - 1) (start_symbol p) 10)
               (\<lambda>trees. Inr (True, Some trees))
        else Inr (False, None))" by blast
  show ?thesis
  proof (cases "start_symbol p \<in> set (chart st ! 0 ! (length sentence - 1))")
    case True
    have "\<exists>ts. build_trees depth (backp st) 0 (length sentence - 1) (start_symbol p) 10 = Inr ts \<and> ts \<noteq> []"
      using build_trees_nonempty[OF st(2), of 10 0 "length sentence - 1" "start_symbol p" depth]
        True ne assms by (simp add: fst_cell_at)
    then obtain ts where ts: "build_trees depth (backp st) 0 (length sentence - 1) (start_symbol p) 10 = Inr ts"
      "ts \<noteq> []" by blast
    then have "parse depth p sentence pos = Inr (True, Some ts)" using st(3) True by simp
    then show ?thesis using ts st(1) by auto
  next
    case False
    then have "parse depth p sentence pos = Inr (False, None)" using st(3) by simp
    then show ?thesis using False st(1) by auto
  qed
qed

theorem success_iff_trees_witness:
  "length [''a'', ''b''] < (3::nat) \<and>
   parse 3 demo_parser [''a'', ''b''] None
     = Inr (True, Some [Tup ''S'' [Tup ''A'' [Str ''a''], Tup ''B'' [Str ''b'']]]) \<and>
   (\<exists>st. fill_chart demo_parser [''a'', ''b''] None = Inr st \<and>
      ''S'' \<in> set (chart st ! 0 ! 1) \<and>
      build_trees 3 (backp st) 0 1 ''S'' 10 = Inr [Tup ''S'' [Tup ''A'' [Str ''a''], Tup ''B'' [Str ''b'']]])"
proof -
  have h: "length [''a'', ''b''] < (3::nat)" by simp
  have s: "start_symbol demo_parser = ''S''" by code_simp
  from success_iff_trees[OF h, of demo_parser None] obtain ok trees where
    r: "parse 3 demo_parser [''a'', ''b''] None = Inr (ok, trees)"
    "\<forall>st. [''a'', ''b''] \<noteq> [] \<and> fill_chart demo_parser [''a'', ''b''] None = Inr st \<and>
              (truthy (None :: symbol list option)
                 \<longrightarrow> length (the_list (None :: symbol list option)) = length [''a'', ''b'']) \<and>
              start_symbol demo_parser \<in> set (chart st ! 0 ! (length [''a'', ''b''] - 1)) \<longrightarrow>
              (\<exists>ts. build_trees 3 (backp st) 0 (length [''a'', ''b''] - 1) (start_symbol demo_parser) 10 = Inr ts
                 \<and> ts \<noteq> [] \<and> ok \<and> trees = Some ts)"
    by (elim exE conjE) (rule that; assumption)
  have c: "map_sum id chart (fill_chart demo_parser [''a'', ''b''] None) = Inr [[[''A''], [''S'']], [[], [''B'']]]"
    by code_simp
  then obtain st where st: "fill_chart demo_parser [''a'', ''b''] None = Inr st"
     "chart st = [[[''A''], [''S'']], [[], [''B'']]]"
    by (cases "fill_chart demo_parser [''a'', ''b''] None") auto
  have "\<exists>ts. build_trees 3 (backp st) 0 1 ''S'' 10 = Inr ts \<and> ts \<noteq> [] \<and> ok \<and> trees = Some ts"
    using r(2)[rule_format, of st] st s by simp
  then show ?thesis using h st r(1) demo_parse by auto
qed

text \<open>
  C2, amended. For a grammar in Chomsky normal form and a non-empty token sequence in which
  the marker \<open>\<epsilon>\<close> does not occur as a token, parsed without POS constraints, cell \<open>(i, j)\<close>
  of the chart holds exactly the non-terminals that derive \<open>tokens[i..j]\<close>, and \<open>parse\<close>
  succeeds exactly when the start symbol is in cell \<open>(0, n - 1)\<close>, that is, when it derives
  the whole sequence.
\<close>


theorem chart_cells_correct:
  assumes "cnf g start" "sentence \<noteq> []" "epsilon \<notin> set sentence" "length sentence < depth"
  shows "\<exists>st ok trees.
    fill_chart (load_grammar g start new_parser) sentence None = Inr st \<and>
    (\<forall>i j. i \<le> j \<and> j < length sentence \<longrightarrow>
        set (chart st ! i ! j) = {A \<in> keys g. derives g [A] (slice sentence i j)}) \<and>
    parse depth (load_grammar g start new_parser) sentence None = Inr (ok, trees) \<and>
    (ok \<longleftrightarrow> start \<in> set (chart st ! 0 ! (length sentence - 1))) \<and>
    (ok \<longleftrightarrow> start \<in> keys g \<and> derives g [start] sentence)"
proof -
  let ?p = "load_grammar g start new_parser"
  let ?n = "length sentence"
  from parse_run[OF assms(2), of None ?p depth] obtain st where
    st: "fill_chart ?p sentence None = Inr st" "filled ?p sentence None st"
    "parse depth ?p sentence None =
      (if start_symbol ?p \<in> set (chart st ! 0 ! (?n - 1))
        then bind_err (build_trees depth (backp st) 0 (?n - 1) (start_symbol ?p) 10)
               (\<lambda>trees. Inr (True, Some trees))
        else Inr (False, None))" by auto
  have cells: "set (chart st ! i ! j) = {A \<in> keys g. derives g [A] (slice sentence i j)}"
    if "i \<le> j" "j < ?n" for i j
    using chart_cells_derive[OF assms(1,3) st(2) that] by (simp add: fst_cell_at)
  have whole: "slice sentence 0 (?n - 1) = sentence"
    using assms(2) by (simp add: slice_def)
  have top: "start \<in> set (chart st ! 0 ! (?n - 1)) \<longleftrightarrow> start \<in> keys g \<and> derives g [start] sentence"
    using cells[of 0 "?n - 1"] assms(2) whole by simp
  have ss: "start_symbol ?p = start" by (rule load_grammar_tables)
  show ?thesis
  proof (cases "start \<in> set (chart st ! 0 ! (?n - 1))")
    case True
    have "\<exists>ts. build_trees depth (backp st) 0 (?n - 1) start 10 = Inr ts \<and> ts \<noteq> []"
      using build_trees_nonempty[OF st(2), of 10 0 "?n - 1" start depth] True assms(2,4)
      by (simp add: fst_cell_at)
    then obtain ts where "build_trees depth (backp st) 0 (?n - 1) start 10 = Inr ts" by blast
    then have "parse depth ?p sentence None = Inr (True, Some ts)" using st(3) True ss by simp
    then show ?thesis using st(1) cells top True by blast
  next
    case False
    then have "parse depth ?p sentence None = Inr (False, None)" using st(3) ss by simp
    then show ?thesis using st(1) cells top False by blast
  qed
qed

theorem chart_cells_correct_witness:
  "cnf demo_grammar ''S'' \<and> [''a'', ''b''] \<noteq> [] \<and> epsilon \<notin> set [''a'', ''b''] \<and> length [''a'', ''b''] < (3::nat) \<and>
   (\<exists>st ok trees.
    fill_chart (load_grammar demo_grammar ''S'' new_parser) [''a'', ''b''] None = Inr st \<and>
    (\<forall>i j. i \<le> j \<and> j < length [''a'', ''b''] \<longrightarrow>
        set (chart st ! i ! j) = {A \<in> keys demo_grammar. derives demo_grammar [A] (slice [''a'', ''b''] i j)}) \<and>
    parse 3 (load_grammar demo_grammar ''S'' new_parser) [''a'', ''b''] None = Inr (ok, trees) \<and>
    (ok \<longleftrightarrow> ''S'' \<in> set (chart st ! 0 ! (length [''a'', ''b''] - 1))) \<and>
    (ok \<longleftrightarrow> ''S'' \<in> keys demo_grammar \<and> derives demo_grammar [''S''] [''a'', ''b'']))"
proof -
  have h: "[''a'', ''b''] \<noteq> ([]::string list)" "epsilon \<notin> set [''a'', ''b'']" "length [''a'', ''b''] < (3::nat)"
    by (simp_all add: epsilon_def)
  show ?thesis
    using chart_cells_correct[OF cnf_demo_grammar h] cnf_demo_grammar h by blast
qed

text \<open>
  The parser reads every production of length one as a terminal rule, the production
  \<open>[\<epsilon>]\<close> of the start symbol included. On the token \<open>\<epsilon>\<close> the cell then holds the start
  symbol, which derives the empty sequence and not that token.
\<close>

theorem chart_cells_epsilon_token:
  "cnf [(''S'', [[epsilon]])] ''S'' \<and>
   map_sum id chart (fill_chart (load_grammar [(''S'', [[epsilon]])] ''S'' new_parser) [epsilon] None)
     = Inr [[[''S'']]] \<and>
   parse 2 (load_grammar [(''S'', [[epsilon]])] ''S'' new_parser) [epsilon] None
     = Inr (True, Some [Tup ''S'' [Str epsilon]]) \<and>
   \<not> derives [(''S'', [[epsilon]])] [''S''] (slice [epsilon] 0 0)"
proof -
  let ?g = "[(''S'', [[epsilon]])]"
  have r: "rule ?g A rhs \<longleftrightarrow> A = ''S'' \<and> rhs = [epsilon]" for A rhs
    by (auto simp: rule_def)
  have "''S'' \<noteq> epsilon" by (simp add: epsilon_def)
  then have "cnf ?g ''S''"
    unfolding cnf_def on_rhs_def r by auto
  moreover have "map_sum id chart (fill_chart (load_grammar ?g ''S'' new_parser) [epsilon] None)
     = Inr [[[''S'']]]"
    by code_simp
  moreover have "parse 2 (load_grammar ?g ''S'' new_parser) [epsilon] None
     = Inr (True, Some [Tup ''S'' [Str epsilon]])"
    by code_simp
  moreover have "\<not> derives ?g [''S''] [epsilon]"
    by (subst derives_single_key) (auto simp: r keys_def)
  ultimately show ?thesis by (simp add: slice_def)
qed

text \<open>
  C6, amended. \<open>parse\<close> returns \<open>(False, None)\<close> on the empty sentence and on a non-empty
  constraint list whose length differs from the sentence's; it raises nothing when the
  recursion may go one call deeper than the sentence is long; and without constraints a token
  with no terminal rule leaves every cell whose span covers it empty, so that the parse fails.
\<close>


theorem parse_failure_semantics:
  assumes "length sentence < depth"
  shows "parse depth p [] pos = Inr (False, None) \<and>
    (truthy pos \<and> length (the_list pos) \<noteq> length sentence
        \<longrightarrow> parse depth p sentence pos = Inr (False, None)) \<and>
    (\<exists>r. parse depth p sentence pos = Inr r) \<and>
    (\<forall>i. \<not> truthy pos \<and> i < length sentence \<and> terminal_rules p (sentence ! i) = [] \<longrightarrow>
        parse depth p sentence pos = Inr (False, None) \<and>
        (\<exists>st. fill_chart p sentence pos = Inr st \<and>
           (\<forall>a b. a \<le> i \<and> i \<le> b \<and> b < length sentence \<longrightarrow> chart st ! a ! b = [])))"
proof (intro conjI allI impI)
  show "parse depth p [] pos = Inr (False, None)" by (simp add: parse_cases)
  show "parse depth p sentence pos = Inr (False, None)"
    if "truthy pos \<and> length (the_list pos) \<noteq> length sentence"
    using that by (simp add: parse_cases)
  show "\<exists>r. parse depth p sentence pos = Inr r"
  proof (cases "sentence = [] \<or> (truthy pos \<and> length (the_list pos) \<noteq> length sentence)")
    case True
    then have "parse depth p sentence pos = Inr (False, None)" by (simp add: parse_cases)
    then show ?thesis by blast
  next
    case False
    then have ne: "sentence \<noteq> []" and ok: "truthy pos \<longrightarrow> length (the_list pos) = length sentence"
      by auto
    from parse_run[OF ne ok, of p depth] obtain st where
      st: "filled p sentence pos st"
      "parse depth p sentence pos =
        (if start_symbol p \<in> set (chart st ! 0 ! (length sentence - 1))
          then bind_err (build_trees depth (backp st) 0 (length sentence - 1) (start_symbol p) 10)
                 (\<lambda>trees. Inr (True, Some trees))
          else Inr (False, None))" by blast
    show ?thesis
    proof (cases "start_symbol p \<in> set (chart st ! 0 ! (length sentence - 1))")
      case True
      then obtain ts where "build_trees depth (backp st) 0 (length sentence - 1) (start_symbol p) 10 = Inr ts"
        using build_trees_nonempty[OF st(1), of 10 0 "length sentence - 1" "start_symbol p" depth]
          ne assms by (auto simp: fst_cell_at)
      then have "parse depth p sentence pos = Inr (True, Some ts)" using st(2) True by simp
      then show ?thesis by blast
    next
      case False
      then have "parse depth p sentence pos = Inr (False, None)" using st(2) by simp
      then show ?thesis by blast
    qed
  qed
next
  fix i
  assume a: "\<not> truthy pos \<and> i < length sentence \<and> terminal_rules p (sentence ! i) = []"
  then have ne: "sentence \<noteq> []" and ok: "truthy pos \<longrightarrow> length (the_list pos) = length sentence"
    by auto
  from parse_run[OF ne ok, of p depth] obtain st where
    st: "fill_chart p sentence pos = Inr st" "filled p sentence pos st"
    "parse depth p sentence pos =
      (if start_symbol p \<in> set (chart st ! 0 ! (length sentence - 1))
        then bind_err (build_trees depth (backp st) 0 (length sentence - 1) (start_symbol p) 10)
               (\<lambda>trees. Inr (True, Some trees))
        else Inr (False, None))" by blast
  have empty: "chart st ! a ! b = []" if "a \<le> i \<and> i \<le> b \<and> b < length sentence" for a b
    using unknown_token_cells[OF st(2), of i a b] a that by simp
  have "0 \<le> i \<and> i \<le> length sentence - 1 \<and> length sentence - 1 < length sentence"
    using a by linarith
  then have "chart st ! 0 ! (length sentence - 1) = []"
    by (rule empty)
  then show "parse depth p sentence pos = Inr (False, None)" using st(3) by simp
  show "\<exists>st. fill_chart p sentence pos = Inr st \<and>
           (\<forall>a b. a \<le> i \<and> i \<le> b \<and> b < length sentence \<longrightarrow> chart st ! a ! b = [])"
    using st(1) empty by blast
qed

theorem parse_failure_semantics_witness:
  "length [''a'', ''c''] < (3::nat) \<and>
   parse 3 demo_parser [] (Some [''A'']) = Inr (False, None) \<and>
   parse 3 demo_parser [''a'', ''c''] (Some [''A'']) = Inr (False, None) \<and>
   parse 3 demo_parser [''a'', ''c''] None = Inr (False, None) \<and>
   terminal_rules demo_parser ([''a'', ''c''] ! 1) = [] \<and>
   (\<exists>st. fill_chart demo_parser [''a'', ''c''] None = Inr st \<and> chart st ! 0 ! 1 = [] \<and> chart st ! 1 ! 1 = [])"
proof -
  have h: "length [''a'', ''c''] < (3::nat)" by simp
  have u: "terminal_rules demo_parser ([''a'', ''c''] ! 1) = []" by code_simp
  note t = parse_failure_semantics[OF h, of demo_parser]
  have 1: "parse 3 demo_parser [] (Some [''A'']) = Inr (False, None)"
    using t[of "Some [''A'']"] by blast
  have 2: "parse 3 demo_parser [''a'', ''c''] (Some [''A'']) = Inr (False, None)"
    using t[of "Some [''A'']"] by simp
  have "\<forall>i. \<not> truthy (None :: symbol list option) \<and> i < length [''a'', ''c'']
          \<and> terminal_rules demo_parser ([''a'', ''c''] ! i) = [] \<longrightarrow>
        parse 3 demo_parser [''a'', ''c''] None = Inr (False, None) \<and>
        (\<exists>st. fill_chart demo_parser [''a'', ''c''] None = Inr st \<and>
           (\<forall>a b. a \<le> i \<and> i \<le> b \<and> b < length [''a'', ''c''] \<longrightarrow> chart st ! a ! b = []))"
    using t[of None] by blast
  from this[rule_format, of 1] u
  have 3: "parse 3 demo_parser [''a'', ''c''] None = Inr (False, None) \<and>
    (\<exists>st. fill_chart demo_parser [''a'', ''c''] None = Inr st \<and>
           (\<forall>a b. a \<le> 1 \<and> 1 \<le> b \<and> b < length [''a'', ''c''] \<longrightarrow> chart st ! a ! b = []))"
    by simp
  then obtain st where st: "fill_chart demo_parser [''a'', ''c''] None = Inr st"
    "\<forall>a b. a \<le> 1 \<and> 1 \<le> b \<and> b < length [''a'', ''c''] \<longrightarrow> chart st ! a ! b = []" by blast
  have "chart st ! 0 ! 1 = []" "chart st ! 1 ! 1 = []" using st(2) by simp_all
  then show ?thesis using h u 1 2 3 st(1) by blast
qed

text \<open>
  An empty constraint list differs in length from a one-token sentence, and the parse
  succeeds all the same.
\<close>

theorem parse_empty_constraint_list_accepts:
  "length ([] :: symbol list) \<noteq> length [''cat''] \<and>
   parse 2 (load_grammar [(''N'', [[''cat'']])] ''N'' new_parser) [''cat''] (Some [])
     = Inr (True, Some [Tup ''N'' [Str ''cat'']])"
  by code_simp

text \<open>The diagonal cell that the lexical rules of a word make.\<close>

lemma fold_cell_add_exact:
  "fold (\<lambda>nt. cell_add nt e) xs c
     = (fold set_add xs (fst c), \<lambda>nt. snd c nt @ replicate (count_list xs nt) e)"
proof (induction xs arbitrary: c)
  case Nil
  show ?case by simp
next
  case (Cons x xs)
  have "fold (\<lambda>nt. cell_add nt e) (x # xs) c = fold (\<lambda>nt. cell_add nt e) xs (cell_add x e c)"
    by simp
  also have "\<dots> = (fold set_add xs (fst (cell_add x e c)),
      \<lambda>nt. snd (cell_add x e c) nt @ replicate (count_list xs nt) e)"
    by (rule Cons)
  also have "\<dots> = (fold set_add (x # xs) (fst c),
      \<lambda>nt. snd c nt @ replicate (count_list (x # xs) nt) e)"
    by (auto simp: cell_add_def fun_eq_iff replicate_app_Cons_same)
  finally show ?case .
qed

lemma lex_cell_exact:
  "lex_cell p w empty_cell
     = (fold set_add (terminal_rules p w) [], \<lambda>nt. replicate (count_list (terminal_rules p w) nt) (Terminal w))"
  by (simp add: lex_cell_def empty_cell_def fold_cell_add_exact)

text \<open>
  C10. On a non-empty sentence, \<open>parse\<close> with the empty list of POS constraints does what it
  does with no constraints. The length test does not fail it, although the length of the
  empty list differs from that of the sentence: the chart is filled, it is the chart of the
  parse without constraints, and the parse succeeds exactly when the start symbol is in the
  top cell, returning then a non-empty list of trees. The diagonal comes from the lexical
  rules: cell \<open>(i, i)\<close> holds the non-terminals with a terminal rule for the \<open>i\<close>-th word, each
  with one \<open>terminal\<close> back-pointer to that word for every such rule. As in C3, \<open>depth\<close> lets
  \<open>_build_trees\<close> nest one call deeper than the sentence is long.
\<close>

theorem parse_empty_constraints:
  assumes "sentence \<noteq> []" "length sentence < depth"
  shows "length ([] :: symbol list) \<noteq> length sentence \<and>
    (\<exists>st ok trees.
       fill_chart p sentence (Some []) = Inr st \<and>
       fill_chart p sentence None = Inr st \<and>
       (\<forall>i < length sentence.
          chart st ! i ! i = fold set_add (terminal_rules p (sentence ! i)) [] \<and>
          backp st ! i ! i
            = (\<lambda>nt. replicate (count_list (terminal_rules p (sentence ! i)) nt) (Terminal (sentence ! i)))) \<and>
       parse depth p sentence (Some []) = Inr (ok, trees) \<and>
       parse depth p sentence None = Inr (ok, trees) \<and>
       (ok \<longleftrightarrow> start_symbol p \<in> set (chart st ! 0 ! (length sentence - 1))) \<and>
       (ok \<longleftrightarrow> (\<exists>ts. trees = Some ts \<and> ts \<noteq> [])))"
proof -
  let ?n = "length sentence"
  have t: "\<not> truthy (Some ([] :: symbol list))" by simp
  then have ok: "truthy (Some ([] :: symbol list)) \<longrightarrow> length (the_list (Some ([] :: symbol list))) = ?n"
    by simp
  from parse_run[OF assms(1) ok, of p depth] obtain st where
    st: "fill_chart p sentence (Some []) = Inr st" "filled p sentence (Some []) st"
    "parse depth p sentence (Some []) =
      (if start_symbol p \<in> set (chart st ! 0 ! (?n - 1))
        then bind_err (build_trees depth (backp st) 0 (?n - 1) (start_symbol p) 10)
               (\<lambda>trees. Inr (True, Some trees))
        else Inr (False, None))" by blast
  have same: "fill_chart p sentence None = fill_chart p sentence (Some [])"
    by (simp add: fill_chart_def)
  have psame: "parse depth p sentence None = parse depth p sentence (Some [])"
    by (simp add: parse_def fill_chart_def Let_def)
  have diag: "chart st ! i ! i = fold set_add (terminal_rules p (sentence ! i)) [] \<and>
          backp st ! i ! i
            = (\<lambda>nt. replicate (count_list (terminal_rules p (sentence ! i)) nt) (Terminal (sentence ! i)))"
    if "i < ?n" for i
  proof -
    have "cell_at st i i = lex_cell p (sentence ! i) empty_cell"
      using filled_diag[OF st(2) that] t by (simp add: diag_cell_def)
    then show ?thesis by (simp add: lex_cell_exact cell_at_def)
  qed
  have len: "length ([] :: symbol list) \<noteq> ?n" using assms(1) by simp
  show ?thesis
  proof (cases "start_symbol p \<in> set (chart st ! 0 ! (?n - 1))")
    case True
    have "\<exists>ts. build_trees depth (backp st) 0 (?n - 1) (start_symbol p) 10 = Inr ts \<and> ts \<noteq> []"
      using build_trees_nonempty[OF st(2), of 10 0 "?n - 1" "start_symbol p" depth] True assms
      by (simp add: fst_cell_at)
    then obtain ts where ts: "build_trees depth (backp st) 0 (?n - 1) (start_symbol p) 10 = Inr ts"
      "ts \<noteq> []" by blast
    then have "parse depth p sentence (Some []) = Inr (True, Some ts)" using st(3) True by simp
    then show ?thesis using len st(1) same psame diag True ts(2)
      by (intro conjI exI[of _ st] exI[of _ True] exI[of _ "Some ts"]) simp_all
  next
    case False
    then have "parse depth p sentence (Some []) = Inr (False, None)" using st(3) by simp
    then show ?thesis using len st(1) same psame diag False
      by (intro conjI exI[of _ st] exI[of _ False] exI[of _ None]) simp_all
  qed
qed

theorem parse_empty_constraints_witness:
  "[''a'', ''b''] \<noteq> [] \<and> length [''a'', ''b''] < (3::nat) \<and>
   length ([] :: symbol list) \<noteq> length [''a'', ''b''] \<and>
   parse 3 demo_parser [''a'', ''b''] (Some [])
     = Inr (True, Some [Tup ''S'' [Tup ''A'' [Str ''a''], Tup ''B'' [Str ''b'']]]) \<and>
   (\<exists>st. fill_chart demo_parser [''a'', ''b''] (Some []) = Inr st \<and>
      chart st ! 0 ! 0 = [''A''] \<and> (backp st ! 0 ! 0) ''A'' = [Terminal ''a''] \<and>
      chart st ! 1 ! 1 = [''B''] \<and> (backp st ! 1 ! 1) ''B'' = [Terminal ''b''] \<and>
      ''S'' \<in> set (chart st ! 0 ! 1))"
proof -
  have h: "[''a'', ''b''] \<noteq> ([] :: string list)" "length [''a'', ''b''] < (3::nat)" by simp_all
  have r: "terminal_rules demo_parser ''a'' = [''A'']" "terminal_rules demo_parser ''b'' = [''B'']"
    "start_symbol demo_parser = ''S''"
    by code_simp+
  from parse_empty_constraints[OF h, of demo_parser] obtain st ok trees where
    st: "fill_chart demo_parser [''a'', ''b''] (Some []) = Inr st"
    and d: "\<forall>i < length [''a'', ''b''].
          chart st ! i ! i = fold set_add (terminal_rules demo_parser ([''a'', ''b''] ! i)) [] \<and>
          backp st ! i ! i
            = (\<lambda>nt. replicate (count_list (terminal_rules demo_parser ([''a'', ''b''] ! i)) nt)
                       (Terminal ([''a'', ''b''] ! i)))"
    and p: "parse 3 demo_parser [''a'', ''b''] (Some []) = Inr (ok, trees)"
      "parse 3 demo_parser [''a'', ''b''] None = Inr (ok, trees)"
    and o: "ok \<longleftrightarrow> start_symbol demo_parser \<in> set (chart st ! 0 ! (length [''a'', ''b''] - 1))"
    by (elim exE conjE) (rule that; assumption)
  have v: "ok" "trees = Some [Tup ''S'' [Tup ''A'' [Str ''a''], Tup ''B'' [Str ''b'']]]"
    using p(2) demo_parse by simp_all
  have 0: "chart st ! 0 ! 0 = [''A'']" "(backp st ! 0 ! 0) ''A'' = [Terminal ''a'']"
    using d[rule_format, of 0] r by (simp_all add: set_add_def)
  have 1: "chart st ! 1 ! 1 = [''B'']" "(backp st ! 1 ! 1) ''B'' = [Terminal ''b'']"
    using d[rule_format, of 1] r by (simp_all add: set_add_def)
  have 2: "''S'' \<in> set (chart st ! 0 ! 1)" using o v(1) r(3) by simp
  show ?thesis using h p(1) v st 0 1 2 by auto
qed

section \<open>The tree reconstructor (parse\_tree\_converter.py)\<close>

text \<open>
  The three sets of a \<open>ParseTreeConverter\<close> are only tested for emptiness and membership;
  they are kept as lists.
\<close>

record converter =
  auxiliary_prefixes :: "string list"
  auxiliary_nts :: "symbol list"
  original_non_terminals :: "symbol list"

definition new_converter :: converter where
  "new_converter = \<lparr>auxiliary_prefixes = [''Y'', ''T'', ''S0''], auxiliary_nts = [],
     original_non_terminals = []\<rparr>"

definition load_original_grammar :: "grammar \<Rightarrow> converter \<Rightarrow> converter" where
  "load_original_grammar g cv = cv\<lparr>original_non_terminals := map fst g\<rparr>"

text \<open>\<open>str.startswith\<close>\<close>

definition startswith :: "string \<Rightarrow> string \<Rightarrow> bool" where
  "startswith s prefix \<longleftrightarrow> take (length prefix) s = prefix"

text \<open>
  \<open>str.isdigit\<close> is a function of the Python library, which knows the digits of every script
  of Unicode. It is not defined here: \<open>is_auxiliary\<close> and the functions that call it take it as
  their first argument \<open>str_isdigit\<close>, and what is proved of them holds whatever that function
  answers. On a string of ASCII characters \<open>str.isdigit\<close> is \<open>ascii_isdigit\<close>, which the
  examples pass for it.
\<close>

definition ascii_isdigit :: "string \<Rightarrow> bool" where
  "ascii_isdigit s \<longleftrightarrow> s \<noteq> [] \<and> (\<forall>c \<in> set s. c \<in> set ''0123456789'')"

definition is_auxiliary :: "(string \<Rightarrow> bool) \<Rightarrow> converter \<Rightarrow> symbol \<Rightarrow> bool" where
  "is_auxiliary str_isdigit cv nt \<longleftrightarrow>
     (if auxiliary_nts cv \<noteq> [] \<and> nt \<in> set (auxiliary_nts cv) then True
      else if original_non_terminals cv \<noteq> [] \<and> nt \<notin> set (original_non_terminals cv) then True
      else (\<exists>prefix \<in> set (auxiliary_prefixes cv).
              startswith nt prefix \<and>
              (length nt = length prefix \<or> str_isdigit (drop (length prefix) nt))))"

text \<open>
  The body of the loop over the children in \<open>_convert_node\<close>, after the recursive call:
  a converted child that is a tuple of length above one with an auxiliary label is replaced
  by its components, any other child is appended.
\<close>

fun incorporate :: "(string \<Rightarrow> bool) \<Rightarrow> converter \<Rightarrow> tree \<Rightarrow> tree list \<Rightarrow> tree list" where
  "incorporate str_isdigit cv (Tup child_nt (c # cs)) converted_children =
     (if is_auxiliary str_isdigit cv child_nt then converted_children @ (c # cs)
      else converted_children @ [Tup child_nt (c # cs)])"
| "incorporate str_isdigit cv converted_child converted_children = converted_children @ [converted_child]"

lemma for_each_cong [fundef_cong]:
  "xs = ys \<Longrightarrow> s = t \<Longrightarrow> (\<And>x u. x \<in> set ys \<Longrightarrow> f x u = g x u)
     \<Longrightarrow> for_each f xs s = for_each g ys t"
proof (induction xs arbitrary: ys s t)
  case Nil
  then show ?case by simp
next
  case (Cons x xs)
  then obtain ys' where ys: "ys = x # ys'" "xs = ys'" by auto
  have "f x s = g x t" using Cons.prems ys by simp
  moreover have "for_each f xs u = for_each g ys' u" for u
    using Cons.IH[OF ys(2) refl] Cons.prems(3) ys by simp
  ultimately show ?case using ys by (cases "g x t") simp_all
qed

text \<open>
  \<open>_convert_node\<close>. A node is a tuple or, where a string stands in a child position, a
  string: Python indexes and slices a string like a tuple of its characters.
\<close>

fun convert_node :: "(string \<Rightarrow> bool) \<Rightarrow> converter \<Rightarrow> tree \<Rightarrow> error + tree" where
  "convert_node str_isdigit cv (Str s) =
     (if length s = 2 then Inr (Str s)
      else if s = [] then Inl IndexError
      else Inr (Tup [hd s] (map (\<lambda>c. Tup [c] []) (tl s))))"
| "convert_node str_isdigit cv (Tup nt [Str word]) = Inr (Tup nt [Str word])"
| "convert_node str_isdigit cv (Tup nt children) =
     bind_err
       (for_each (\<lambda>child converted_children.
            bind_err (convert_node str_isdigit cv child)
              (\<lambda>converted_child. Inr (incorporate str_isdigit cv converted_child converted_children)))
          children [])
       (\<lambda>converted_children. Inr (Tup nt converted_children))"

fun convert :: "(string \<Rightarrow> bool) \<Rightarrow> converter \<Rightarrow> tree option \<Rightarrow> error + tree option" where
  "convert str_isdigit cv None = Inr None"
| "convert str_isdigit cv (Some t) = bind_err (convert_node str_isdigit cv t) (\<lambda>r. Inr (Some r))"


text \<open>The shapes of the trees \<open>_build_trees\<close> makes: \<open>(nt, word)\<close>, \<open>(nt, child)\<close>, \<open>(nt, left, right)\<close>.\<close>

fun cky_tree :: "tree \<Rightarrow> bool" where
  "cky_tree (Tup nt [Str word]) = True"
| "cky_tree (Tup nt [Tup c cs]) = cky_tree (Tup c cs)"
| "cky_tree (Tup nt [Tup b bs, Tup c cs]) = (cky_tree (Tup b bs) \<and> cky_tree (Tup c cs))"
| "cky_tree t = False"

text \<open>
  The reconstruction as the specification words it: below the root, a node with an auxiliary
  label is elided and what it holds takes its place in the parent's child list; the root
  keeps its label.
\<close>

fun elide :: "(string \<Rightarrow> bool) \<Rightarrow> converter \<Rightarrow> tree \<Rightarrow> tree list" where
  "elide str_isdigit cv (Str w) = [Str w]"
| "elide str_isdigit cv (Tup nt cs) =
     (if is_auxiliary str_isdigit cv nt then concat (map (elide str_isdigit cv) cs)
      else [Tup nt (concat (map (elide str_isdigit cv) cs))])"

fun reconstructed :: "(string \<Rightarrow> bool) \<Rightarrow> converter \<Rightarrow> tree \<Rightarrow> tree" where
  "reconstructed str_isdigit cv (Str w) = Str w"
| "reconstructed str_isdigit cv (Tup nt cs) = Tup nt (concat (map (elide str_isdigit cv) cs))"

fun label :: "tree \<Rightarrow> symbol" where
  "label (Str w) = w"
| "label (Tup nt cs) = nt"

fun words :: "tree \<Rightarrow> string list" where
  "words (Str w) = [w]"
| "words (Tup nt cs) = concat (map words cs)"

fun no_auxiliary :: "(string \<Rightarrow> bool) \<Rightarrow> converter \<Rightarrow> tree \<Rightarrow> bool" where
  "no_auxiliary str_isdigit cv (Str w) = True"
| "no_auxiliary str_isdigit cv (Tup nt cs) = (\<not> is_auxiliary str_isdigit cv nt \<and> (\<forall>c \<in> set cs. no_auxiliary str_isdigit cv c))"

fun children :: "tree \<Rightarrow> tree list" where
  "children (Str w) = []"
| "children (Tup nt cs) = cs"

lemma words_elide: "concat (map words (elide str_isdigit cv t)) = words t"
proof (induction t)
  case (Str w)
  show ?case by simp
next
  case (Tup nt cs)
  have "concat (map words (concat (map (elide str_isdigit cv) cs))) = concat (map words cs)"
    using Tup by (induction cs) auto
  then show ?case by simp
qed

lemma no_auxiliary_elide: "x \<in> set (elide str_isdigit cv t) \<Longrightarrow> no_auxiliary str_isdigit cv x"
proof (induction t arbitrary: x)
  case (Str w)
  then show ?case by simp
next
  case (Tup nt cs)
  have "\<forall>y \<in> set (concat (map (elide str_isdigit cv) cs)). no_auxiliary str_isdigit cv y"
    using Tup.IH by auto
  then show ?case using Tup.prems by (auto split: if_splits)
qed

lemma cky_tree_cases:
  assumes "cky_tree t"
  obtains nt w where "t = Tup nt [Str w]"
  | nt c where "t = Tup nt [c]" "cky_tree c"
  | nt l r where "t = Tup nt [l, r]" "cky_tree l" "cky_tree r"
  using assms by (induction t rule: cky_tree.induct) auto

lemma elide_cky_nonempty: "cky_tree t \<Longrightarrow> elide str_isdigit cv t \<noteq> []"
proof (induction t rule: cky_tree.induct)
  case (2 nt c cs)
  then show ?case by (simp del: elide.simps add: elide.simps[of str_isdigit cv nt])
next
  case (3 nt b bs c cs)
  then show ?case by (simp del: elide.simps add: elide.simps[of str_isdigit cv nt])
qed auto

lemma incorporate_reconstructed:
  assumes "cky_tree t"
  shows "incorporate str_isdigit cv (reconstructed str_isdigit cv t) acc = acc @ elide str_isdigit cv t"
proof -
  from assms obtain nt cs where t: "t = Tup nt cs" by (cases t) auto
  have "concat (map (elide str_isdigit cv) cs) \<noteq> []"
    using assms t by (cases rule: cky_tree_cases) (auto simp: elide_cky_nonempty)
  then obtain x xs where "concat (map (elide str_isdigit cv) cs) = x # xs"
    by (cases "concat (map (elide str_isdigit cv) cs)") auto
  then show ?thesis using t by simp
qed

lemma convert_node_reconstructed:
  "cky_tree t \<Longrightarrow> convert_node str_isdigit cv t = Inr (reconstructed str_isdigit cv t)"
proof (induction t rule: cky_tree.induct)
  case (1 nt word)
  show ?case by simp
next
  case (2 nt c cs)
  then have c: "cky_tree (Tup c cs)" "convert_node str_isdigit cv (Tup c cs) = Inr (reconstructed str_isdigit cv (Tup c cs))"
    by simp_all
  show ?case
    using incorporate_reconstructed[OF c(1), of str_isdigit cv "[]"]
    by (simp del: elide.simps reconstructed.simps convert_node.simps(3) incorporate.simps
        add: convert_node.simps(3)[of str_isdigit cv nt] c(2) reconstructed.simps(2)[of str_isdigit cv nt])
next
  case (3 nt b bs c cs)
  then have b: "cky_tree (Tup b bs)" "convert_node str_isdigit cv (Tup b bs) = Inr (reconstructed str_isdigit cv (Tup b bs))"
    and c: "cky_tree (Tup c cs)" "convert_node str_isdigit cv (Tup c cs) = Inr (reconstructed str_isdigit cv (Tup c cs))"
    by simp_all
  show ?case
    using incorporate_reconstructed[OF b(1), of str_isdigit cv "[]"]
      incorporate_reconstructed[OF c(1), of str_isdigit cv "elide str_isdigit cv (Tup b bs)"]
    by (simp del: elide.simps reconstructed.simps convert_node.simps(3) incorporate.simps
        add: convert_node.simps(3)[of str_isdigit cv nt] b(2) c(2) reconstructed.simps(2)[of str_isdigit cv nt])
qed auto

text \<open>
  C9. For every tree of the shapes \<open>_build_trees\<close> makes, \<open>convert\<close> returns the tree in which
  every node below the root whose label is auxiliary is elided, what it holds being spliced
  into its parent's child list; the root keeps its label, auxiliary or not; the terminal
  words are the same in the same order; and no node below the root carries an auxiliary label.
  This holds for every converter and whatever \<open>str.isdigit\<close> answers.
\<close>

theorem convert_flattens_auxiliaries:
  assumes "cky_tree t"
  shows "convert str_isdigit cv (Some t) = Inr (Some (reconstructed str_isdigit cv t)) \<and>
         label (reconstructed str_isdigit cv t) = label t \<and>
         words (reconstructed str_isdigit cv t) = words t \<and>
         (\<forall>c \<in> set (children (reconstructed str_isdigit cv t)). no_auxiliary str_isdigit cv c)"
proof -
  from assms obtain nt cs where t: "t = Tup nt cs" by (cases t) auto
  have "concat (map words (concat (map (elide str_isdigit cv) cs))) = concat (map words cs)"
    using words_elide[of str_isdigit cv] by (induction cs) auto
  moreover have "\<forall>c \<in> set (concat (map (elide str_isdigit cv) cs)). no_auxiliary str_isdigit cv c"
    using no_auxiliary_elide by auto
  ultimately show ?thesis
    using convert_node_reconstructed[OF assms, of str_isdigit cv] t by simp
qed

theorem convert_flattens_auxiliaries_witness:
  "cky_tree (Tup ''S0'' [Tup ''T0'' [Tup ''DT'' [Str ''the'']],
                        Tup ''Y1'' [Tup ''T2'' [Str ''big''], Tup ''NN'' [Str ''cat'']]]) \<and>
   convert ascii_isdigit new_converter (Some (Tup ''S0'' [Tup ''T0'' [Tup ''DT'' [Str ''the'']],
                        Tup ''Y1'' [Tup ''T2'' [Str ''big''], Tup ''NN'' [Str ''cat'']]]))
     = Inr (Some (Tup ''S0'' [Tup ''DT'' [Str ''the''], Str ''big'', Tup ''NN'' [Str ''cat'']])) \<and>
   words (Tup ''S0'' [Tup ''DT'' [Str ''the''], Str ''big'', Tup ''NN'' [Str ''cat'']])
     = [''the'', ''big'', ''cat''] \<and>
   is_auxiliary ascii_isdigit new_converter ''S0'' \<and>
   no_auxiliary ascii_isdigit new_converter (Tup ''DT'' [Str ''the'']) \<and>
   no_auxiliary ascii_isdigit new_converter (Tup ''NN'' [Str ''cat''])"
proof -
  let ?t = "Tup ''S0'' [Tup ''T0'' [Tup ''DT'' [Str ''the'']],
                        Tup ''Y1'' [Tup ''T2'' [Str ''big''], Tup ''NN'' [Str ''cat'']]]"
  have c: "cky_tree ?t" by simp
  have r: "reconstructed ascii_isdigit new_converter ?t
             = Tup ''S0'' [Tup ''DT'' [Str ''the''], Str ''big'', Tup ''NN'' [Str ''cat'']]"
    by code_simp
  note t = convert_flattens_auxiliaries[OF c, of ascii_isdigit new_converter, unfolded r]
  have 1: "convert ascii_isdigit new_converter (Some ?t)
     = Inr (Some (Tup ''S0'' [Tup ''DT'' [Str ''the''], Str ''big'', Tup ''NN'' [Str ''cat'']]))"
    using t by blast
  have 2: "words (Tup ''S0'' [Tup ''DT'' [Str ''the''], Str ''big'', Tup ''NN'' [Str ''cat'']])
     = [''the'', ''big'', ''cat'']"
    by simp
  have 3: "is_auxiliary ascii_isdigit new_converter ''S0''" by code_simp
  have "\<forall>c \<in> set (children (Tup ''S0'' [Tup ''DT'' [Str ''the''], Str ''big'', Tup ''NN'' [Str ''cat'']])).
          no_auxiliary ascii_isdigit new_converter c"
    using t by blast
  then have 4: "no_auxiliary ascii_isdigit new_converter (Tup ''DT'' [Str ''the''])"
    "no_auxiliary ascii_isdigit new_converter (Tup ''NN'' [Str ''cat''])"
    by (simp_all del: no_auxiliary.simps)
  show ?thesis using c 1 2 3 4 by blast
qed

section \<open>The validator (agreement\_checker.py, main.py)\<close>

text \<open>A feature map is a \<open>dict\<close> from feature names to strings.\<close>

type_synonym features = "string \<rightharpoonup> string"

text \<open>\<open>d.get(key, default)\<close>\<close>

definition get_default :: "features \<Rightarrow> string \<Rightarrow> string \<Rightarrow> string" where
  "get_default d key dflt = (case d key of None \<Rightarrow> dflt | Some v \<Rightarrow> v)"

text \<open>
  \<open>vp_features.get('head_pos') or vp_features.get('pos')\<close>: the first value unless it is
  missing or the empty string.
\<close>

definition head_or_pos :: "features \<Rightarrow> string option" where
  "head_or_pos vp = (case vp ''head_pos'' of
                       None \<Rightarrow> vp ''pos''
                     | Some v \<Rightarrow> if v = [] then vp ''pos'' else Some v)"

subsection \<open>AgreementChecker.\_check\_subject\_verb\_agreement\<close>

definition vbz_error :: "string \<Rightarrow> string \<Rightarrow> string" where
  "vbz_error subj_person subj_num =
     ''Subject-Verb disagreement: NP('' @ subj_person @ ''p, '' @ subj_num @ '') + VBZ (requires 3sg)''"

definition vbp_error :: string where
  "vbp_error = ''Subject-Verb disagreement: NP(3sg) + VBP (requires non-3sg)''"

definition check_subject_verb_agreement :: "features \<Rightarrow> features \<Rightarrow> bool \<times> string option" where
  "check_subject_verb_agreement np_features vp_features =
     (let subj_num = get_default np_features ''num'' ''any'';
          subj_person = get_default np_features ''person'' ''any'';
          verb_pos = head_or_pos vp_features;
          verb_tense = get_default vp_features ''tense'' ''any''
      in if verb_tense = ''past'' then (True, None)
         else if verb_pos = Some ''VBZ'' then
           (if subj_person = ''3'' \<and> subj_num = ''sg'' then (True, None)
            else if subj_person = ''any'' \<or> subj_num = ''any'' then (True, None)
            else (False, Some (vbz_error subj_person subj_num)))
         else if verb_pos = Some ''VBP'' then
           (if subj_person = ''3'' \<and> subj_num = ''sg'' then (False, Some vbp_error)
            else (True, None))
         else (True, None))"

subsection \<open>EnglishParser.\_check\_tree\_agreements: the subject-verb part\<close>

text \<open>The loop "Find main verb": the first position whose tag is VBZ or VBP.\<close>

fun find_main_verb :: "nat \<Rightarrow> string list \<Rightarrow> (nat \<times> string) option" where
  "find_main_verb i [] = None"
| "find_main_verb i (pos # rest) =
     (if pos = ''VBZ'' \<or> pos = ''VBP'' then Some (i, pos) else find_main_verb (Suc i) rest)"

text \<open>
  \<open>features\<close> is the dictionary \<open>{i: feat for i, feat in enumerate(features)}\<close>, kept as the
  list it is built from; a missing index raises \<open>KeyError\<close>.
\<close>

definition lookup_features :: "features list \<Rightarrow> nat \<Rightarrow> error + features" where
  "lookup_features fs i = (if i < length fs then Inr (fs ! i) else Inl KeyError)"

text \<open>
  Lines 376 to 393 of main.py, from the subject features found before (\<open>None\<close> when no
  pattern matched) and the errors collected so far to the errors after the check.
  \<open>{'head_pos': verb_pos, **verb_features}\<close> lets an entry of \<open>verb_features\<close> win.
\<close>

definition subject_verb_check ::
    "features option \<Rightarrow> string list \<Rightarrow> features list \<Rightarrow> string list \<Rightarrow> error + string list" where
  "subject_verb_check subj_features pos_tags fs errors =
     (case (subj_features, find_main_verb 0 pos_tags) of
        (Some subj, Some (verb_idx, verb_pos)) \<Rightarrow>
          bind_err (lookup_features fs verb_idx) (\<lambda>verb_features.
            let verb_features_with_head = [''head_pos'' \<mapsto> verb_pos] ++ verb_features;
                (ok, err) = check_subject_verb_agreement subj verb_features_with_head
            in if \<not> ok then Inr (errors @ [the err]) else Inr errors)
      | _ \<Rightarrow> Inr errors)"

subsection \<open>EnglishParser.\_check\_verb\_subcategorization\<close>

text \<open>
  An entry of the subcategorization map is a dictionary with the optional keys
  \<open>allows_np\<close>, \<open>requires_pp\<close> and \<open>frames\<close>, or, in the old format, a list of frame names.
\<close>

datatype verb_info = Info "bool option" "bool option" "string list option" | Frames "string list"

fun allows_np :: "verb_info \<Rightarrow> bool" where
  "allows_np (Info a r f) = (case a of None \<Rightarrow> True | Some b \<Rightarrow> b)"
| "allows_np (Frames frames) = (''transitive'' \<in> set frames \<or> ''ditransitive'' \<in> set frames)"

fun requires_pp :: "verb_info \<Rightarrow> bool" where
  "requires_pp (Info a r f) = (case r of None \<Rightarrow> False | Some b \<Rightarrow> b)"
| "requires_pp (Frames frames) = (''pp_required'' \<in> set frames)"

text \<open>
  \<open>str.lower\<close> is a function of the Python library, which knows the letters of every script of
  Unicode. It is not defined here: \<open>check_verb_subcategorization\<close> takes it as its first
  argument \<open>str_lower\<close>, and what is proved of it holds whatever that function returns. On a
  string of ASCII characters \<open>str.lower\<close> is \<open>ascii_lower\<close>, which the example passes for it.
\<close>

definition ascii_lower_char :: "char \<Rightarrow> char" where
  "ascii_lower_char c =
     (let n = (of_char c :: nat) in if 65 \<le> n \<and> n \<le> 90 then char_of (n + 32) else c)"

definition ascii_lower :: "string \<Rightarrow> string" where
  "ascii_lower s = map ascii_lower_char s"

definition verb_tags :: "string list" where
  "verb_tags = [''VB'', ''VBD'', ''VBP'', ''VBZ'', ''VBG'', ''VBN'']"

text \<open>The loop "Find main verb and analyze its arguments".\<close>

fun find_verb :: "nat \<Rightarrow> string list \<Rightarrow> nat option" where
  "find_verb i [] = None"
| "find_verb i (pos # rest) = (if pos \<in> set verb_tags then Some i else find_verb (Suc i) rest)"

text \<open>The loop "Check for PP (IN + NP)" over \<open>enumerate(after_verb)\<close>, from position \<open>i\<close> on.\<close>

fun find_pp :: "nat \<Rightarrow> nat \<Rightarrow> string list \<Rightarrow> bool" where
  "find_pp n i [] = False"
| "find_pp n i (pos # rest) = (if pos = ''IN'' \<and> i + 1 < n then True else find_pp n (Suc i) rest)"

definition requires_preposition :: "string \<Rightarrow> string" where
  "requires_preposition verb_lemma = ''Verb '' @ [CHR 0x27] @ verb_lemma @ [CHR 0x27] @ '' requires a preposition with its object''"

definition no_direct_object :: "string \<Rightarrow> string" where
  "no_direct_object verb_lemma = ''Verb '' @ [CHR 0x27] @ verb_lemma @ [CHR 0x27] @ '' does not take a direct object (NP)''"

definition requires_pp_phrase :: "string \<Rightarrow> string" where
  "requires_pp_phrase verb_lemma = ''Verb '' @ [CHR 0x27] @ verb_lemma @ [CHR 0x27] @ '' requires a prepositional phrase''"

definition check_verb_subcategorization ::
    "(string \<Rightarrow> string) \<Rightarrow> (string \<rightharpoonup> verb_info) \<Rightarrow> string list \<Rightarrow> features list
       \<Rightarrow> error + string list" where
  "check_verb_subcategorization str_lower verb_subcat pos_tags fs =
     (case find_verb 0 pos_tags of
        None \<Rightarrow> Inr []
      | Some verb_idx \<Rightarrow>
          bind_err (lookup_features fs verb_idx) (\<lambda>verb_features.
            let verb_lemma = str_lower (get_default verb_features ''lemma'' '''') in
            case verb_subcat verb_lemma of
              None \<Rightarrow> Inr []
            | Some verb_info \<Rightarrow>
                let after_verb = (if verb_idx < length pos_tags - 1
                                  then drop (verb_idx + 1) pos_tags else []);
                    has_np = (after_verb \<noteq> [] \<and>
                       (hd after_verb \<in> set [''DT'', ''PRP'', ''NNP'', ''NNPS'', ''CD'', ''PRP$'']
                        \<or> hd after_verb \<in> set [''NN'', ''NNS'']));
                    has_pp = find_pp (length after_verb) 0 after_verb;
                    errors1 = (if has_np \<and> \<not> has_pp
                               then (if requires_pp verb_info then [requires_preposition verb_lemma]
                                     else if \<not> allows_np verb_info then [no_direct_object verb_lemma]
                                     else [])
                               else []);
                    errors2 = (if requires_pp verb_info \<and> \<not> has_pp \<and> \<not> has_np
                                  \<and> verb_idx < length pos_tags - 1
                               then errors1 @ [requires_pp_phrase verb_lemma] else errors1)
                in Inr errors2))"


subsection \<open>The checks as the specification words them\<close>

definition third_singular :: "features \<Rightarrow> bool" where
  "third_singular subj \<longleftrightarrow>
     get_default subj ''person'' ''any'' = ''3'' \<and> get_default subj ''num'' ''any'' = ''sg''"

definition undetermined :: "features \<Rightarrow> bool" where
  "undetermined subj \<longleftrightarrow>
     get_default subj ''person'' ''any'' = ''any'' \<or> get_default subj ''num'' ''any'' = ''any''"

definition first_at :: "(string \<Rightarrow> bool) \<Rightarrow> string list \<Rightarrow> nat \<Rightarrow> bool" where
  "first_at P pos_tags i \<longleftrightarrow> i < length pos_tags \<and> P (pos_tags ! i) \<and> (\<forall>k < i. \<not> P (pos_tags ! k))"

definition has_np_spec :: "string list \<Rightarrow> bool" where
  "has_np_spec after_verb \<longleftrightarrow> after_verb \<noteq> [] \<and>
     hd after_verb \<in> {''DT'', ''PRP'', ''NNP'', ''NNPS'', ''CD'', ''PRP$'', ''NN'', ''NNS''}"

definition has_pp_spec :: "string list \<Rightarrow> bool" where
  "has_pp_spec after_verb \<longleftrightarrow>
     (\<exists>k. k < length after_verb \<and> after_verb ! k = ''IN'' \<and> k + 1 < length after_verb)"

lemma first_at_Cons:
  "first_at P (x # xs) k \<longleftrightarrow> (if P x then k = 0 else (\<exists>k'. k = Suc k' \<and> first_at P xs k'))"
proof (cases "P x")
  case True
  have "k = 0" if "\<forall>j<k. \<not> P ((x # xs) ! j)"
  proof (rule ccontr)
    assume "k \<noteq> 0"
    then have "\<not> P ((x # xs) ! 0)" using that by blast
    then show False using True by simp
  qed
  then show ?thesis using True by (auto simp: first_at_def)
next
  case False
  then show ?thesis by (cases k) (auto simp: first_at_def less_Suc_eq_0_disj)
qed

lemma find_main_verb_shift:
  "find_main_verb n xs = map_option (\<lambda>(i, vp). (n + i, vp)) (find_main_verb 0 xs)"
proof (induction xs arbitrary: n)
  case Nil
  show ?case by simp
next
  case (Cons x xs)
  show ?case
    using Cons.IH[of "Suc n"] Cons.IH[of "Suc 0"]
    by (simp add: option.map_comp comp_def case_prod_unfold)
qed

lemma find_main_verb_iff:
  "find_main_verb 0 xs = Some (i, vp) \<longleftrightarrow>
     first_at (\<lambda>t. t = ''VBZ'' \<or> t = ''VBP'') xs i \<and> vp = xs ! i"
proof (induction xs arbitrary: i)
  case Nil
  show ?case by (simp add: first_at_def)
next
  case (Cons x xs)
  show ?case
  proof (cases "x = ''VBZ'' \<or> x = ''VBP''")
    case True
    then show ?thesis by (auto simp: first_at_Cons)
  next
    case False
    have "find_main_verb 0 (x # xs) = Some (i, vp)
          \<longleftrightarrow> (\<exists>k. i = Suc k \<and> find_main_verb 0 xs = Some (k, vp))"
      using False find_main_verb_shift[of "Suc 0" xs] by (cases "find_main_verb 0 xs") auto
    then show ?thesis using False Cons.IH by (auto simp: first_at_Cons)
  qed
qed

lemma find_main_verb_None:
  "find_main_verb n xs = None \<longleftrightarrow> (\<forall>t \<in> set xs. t \<noteq> ''VBZ'' \<and> t \<noteq> ''VBP'')"
  by (induction xs arbitrary: n) auto

lemma find_verb_shift: "find_verb n xs = map_option (\<lambda>i. n + i) (find_verb 0 xs)"
proof (induction xs arbitrary: n)
  case Nil
  show ?case by simp
next
  case (Cons x xs)
  show ?case
    using Cons.IH[of "Suc n"] Cons.IH[of "Suc 0"]
    by (simp add: option.map_comp comp_def)
qed

lemma find_verb_iff:
  "find_verb 0 xs = Some i \<longleftrightarrow> first_at (\<lambda>t. t \<in> set verb_tags) xs i"
proof (induction xs arbitrary: i)
  case Nil
  show ?case by (simp add: first_at_def)
next
  case (Cons x xs)
  show ?case
  proof (cases "x \<in> set verb_tags")
    case True
    then show ?thesis by (auto simp: first_at_Cons)
  next
    case False
    have "find_verb 0 (x # xs) = Some i \<longleftrightarrow> (\<exists>k. i = Suc k \<and> find_verb 0 xs = Some k)"
      using False find_verb_shift[of "Suc 0" xs] by (cases "find_verb 0 xs") auto
    then show ?thesis using False Cons.IH by (auto simp: first_at_Cons)
  qed
qed

lemma find_pp_iff:
  "find_pp n i xs \<longleftrightarrow> (\<exists>k. k < length xs \<and> xs ! k = ''IN'' \<and> i + k + 1 < n)"
proof (induction xs arbitrary: i)
  case Nil
  show ?case by simp
next
  case (Cons x xs)
  have "(\<exists>k. k < length (x # xs) \<and> (x # xs) ! k = ''IN'' \<and> i + k + 1 < n)
        \<longleftrightarrow> (x = ''IN'' \<and> i + 1 < n) \<or> (\<exists>k. k < length xs \<and> xs ! k = ''IN'' \<and> Suc i + k + 1 < n)"
    by (auto simp: less_Suc_eq_0_disj)
  then show ?case using Cons.IH[of "Suc i"] by auto
qed

lemma find_pp_spec: "find_pp (length xs) 0 xs = has_pp_spec xs"
  by (simp add: find_pp_iff has_pp_spec_def)

lemma messages_differ:
  "requires_preposition l \<noteq> no_direct_object l"
  "requires_preposition l \<noteq> requires_pp_phrase l"
  "no_direct_object l \<noteq> requires_pp_phrase l"
  by (simp_all add: requires_preposition_def no_direct_object_def requires_pp_phrase_def)

lemma check_subject_verb_agreement_present:
  assumes "vf ''tense'' \<noteq> Some ''past''" "vf ''head_pos'' = None" "vp \<noteq> []"
  shows "check_subject_verb_agreement subj ([''head_pos'' \<mapsto> vp] ++ vf) =
     (if vp = ''VBZ'' then
        (if third_singular subj \<or> undetermined subj then (True, None)
         else (False, Some (vbz_error (get_default subj ''person'' ''any'') (get_default subj ''num'' ''any''))))
      else if vp = ''VBP'' then
        (if third_singular subj then (False, Some vbp_error) else (True, None))
      else (True, None))"
proof -
  have h: "head_or_pos ([''head_pos'' \<mapsto> vp] ++ vf) = Some vp"
    using assms(2,3) by (simp add: head_or_pos_def map_add_def)
  have t: "get_default ([''head_pos'' \<mapsto> vp] ++ vf) ''tense'' ''any'' \<noteq> ''past''"
    using assms(1) by (auto simp: get_default_def map_add_def split: option.splits)
  show ?thesis
    using t by (auto simp: check_subject_verb_agreement_def h Let_def third_singular_def undetermined_def)
qed

text \<open>
  C7, amended. Let the first tag that is VBZ or VBP stand at position \<open>i\<close>, and let the
  feature map of that token neither say \<open>tense = past\<close> nor carry a \<open>head_pos\<close> of its own.
  With VBZ the check accepts exactly when the subject is third-person singular or its person
  or number is \<open>any\<close> (a missing feature counts as \<open>any\<close>), and appends an error otherwise;
  with VBP it appends an error exactly when the subject is third-person singular. When no tag
  is VBZ or VBP nothing is checked, and the checker accepts every other verb form.
\<close>

theorem subject_verb_agreement:
  shows "(\<forall>i. first_at (\<lambda>t. t = ''VBZ'' \<or> t = ''VBP'') pos_tags i \<and> i < length fs \<and>
            (fs ! i) ''tense'' \<noteq> Some ''past'' \<and> (fs ! i) ''head_pos'' = None \<longrightarrow>
          subject_verb_check (Some subj) pos_tags fs errors =
            Inr (if pos_tags ! i = ''VBZ''
                 then (if third_singular subj \<or> undetermined subj then errors
                       else errors @ [vbz_error (get_default subj ''person'' ''any'')
                                                (get_default subj ''num'' ''any'')])
                 else (if third_singular subj then errors @ [vbp_error] else errors))) \<and>
         ((\<forall>t \<in> set pos_tags. t \<noteq> ''VBZ'' \<and> t \<noteq> ''VBP'') \<longrightarrow>
            subject_verb_check (Some subj) pos_tags fs errors = Inr errors) \<and>
         (head_or_pos vf \<noteq> Some ''VBZ'' \<and> head_or_pos vf \<noteq> Some ''VBP'' \<longrightarrow>
            check_subject_verb_agreement subj vf = (True, None))"
proof (intro conjI allI impI)
  fix i
  assume a: "first_at (\<lambda>t. t = ''VBZ'' \<or> t = ''VBP'') pos_tags i \<and> i < length fs \<and>
            (fs ! i) ''tense'' \<noteq> Some ''past'' \<and> (fs ! i) ''head_pos'' = None"
  then have f: "find_main_verb 0 pos_tags = Some (i, pos_tags ! i)"
    by (simp add: find_main_verb_iff)
  have vp: "pos_tags ! i = ''VBZ'' \<or> pos_tags ! i = ''VBP''" using a by (simp add: first_at_def)
  then have ne: "pos_tags ! i \<noteq> []" by auto
  have c: "check_subject_verb_agreement subj ([''head_pos'' \<mapsto> pos_tags ! i] ++ (fs ! i)) =
     (if pos_tags ! i = ''VBZ'' then
        (if third_singular subj \<or> undetermined subj then (True, None)
         else (False, Some (vbz_error (get_default subj ''person'' ''any'') (get_default subj ''num'' ''any''))))
      else if pos_tags ! i = ''VBP'' then
        (if third_singular subj then (False, Some vbp_error) else (True, None))
      else (True, None))"
    using a ne by (intro check_subject_verb_agreement_present) auto
  show "subject_verb_check (Some subj) pos_tags fs errors =
            Inr (if pos_tags ! i = ''VBZ''
                 then (if third_singular subj \<or> undetermined subj then errors
                       else errors @ [vbz_error (get_default subj ''person'' ''any'')
                                                (get_default subj ''num'' ''any'')])
                 else (if third_singular subj then errors @ [vbp_error] else errors))"
    using a vp by (auto simp: subject_verb_check_def f lookup_features_def c Let_def)
next
  assume "\<forall>t \<in> set pos_tags. t \<noteq> ''VBZ'' \<and> t \<noteq> ''VBP''"
  then have "find_main_verb 0 pos_tags = None" by (simp add: find_main_verb_None)
  then show "subject_verb_check (Some subj) pos_tags fs errors = Inr errors"
    by (simp add: subject_verb_check_def)
next
  assume "head_or_pos vf \<noteq> Some ''VBZ'' \<and> head_or_pos vf \<noteq> Some ''VBP''"
  then show "check_subject_verb_agreement subj vf = (True, None)"
    by (simp add: check_subject_verb_agreement_def Let_def)
qed

theorem subject_verb_agreement_witness:
  "first_at (\<lambda>t. t = ''VBZ'' \<or> t = ''VBP'') [''PRP'', ''VBZ'', ''DT'', ''NN''] 1 \<and>
   subject_verb_check (Some [''person'' \<mapsto> ''1'', ''num'' \<mapsto> ''sg''])
     [''PRP'', ''VBZ'', ''DT'', ''NN'']
     [Map.empty, [''tense'' \<mapsto> ''pres''], Map.empty, Map.empty] []
     = Inr [''Subject-Verb disagreement: NP(1p, sg) + VBZ (requires 3sg)''] \<and>
   subject_verb_check (Some [''person'' \<mapsto> ''3'', ''num'' \<mapsto> ''sg''])
     [''PRP'', ''VBD'', ''DT'', ''NN'']
     [Map.empty, [''tense'' \<mapsto> ''past''], Map.empty, Map.empty] [] = Inr [] \<and>
   check_subject_verb_agreement [''person'' \<mapsto> ''1'', ''num'' \<mapsto> ''sg''] [''pos'' \<mapsto> ''VBD'']
     = (True, None)"
proof -
  let ?tags = "[''PRP'', ''VBZ'', ''DT'', ''NN'']"
  let ?fs = "[Map.empty, [''tense'' \<mapsto> ''pres''], Map.empty, Map.empty] :: features list"
  let ?subj = "[''person'' \<mapsto> ''1'', ''num'' \<mapsto> ''sg''] :: features"
  have f: "first_at (\<lambda>t. t = ''VBZ'' \<or> t = ''VBP'') ?tags 1"
    by (simp add: first_at_def)
  have h: "first_at (\<lambda>t. t = ''VBZ'' \<or> t = ''VBP'') ?tags 1 \<and> 1 < length ?fs \<and>
            (?fs ! 1) ''tense'' \<noteq> Some ''past'' \<and> (?fs ! 1) ''head_pos'' = None"
    using f by simp
  have s: "\<not> third_singular ?subj" "\<not> undetermined ?subj"
    "vbz_error (get_default ?subj ''person'' ''any'') (get_default ?subj ''num'' ''any'')
       = ''Subject-Verb disagreement: NP(1p, sg) + VBZ (requires 3sg)''"
    by (simp_all add: third_singular_def undetermined_def get_default_def vbz_error_def)
  note t = subject_verb_agreement[of ?tags ?fs ?subj "[]"]
  have 1: "subject_verb_check (Some ?subj) ?tags ?fs []
     = Inr [''Subject-Verb disagreement: NP(1p, sg) + VBZ (requires 3sg)'']"
    using t[THEN conjunct1, rule_format, OF h] s by simp
  have 2: "subject_verb_check (Some [''person'' \<mapsto> ''3'', ''num'' \<mapsto> ''sg''])
     [''PRP'', ''VBD'', ''DT'', ''NN'']
     [Map.empty, [''tense'' \<mapsto> ''past''], Map.empty, Map.empty] [] = Inr []"
    using subject_verb_agreement[of "[''PRP'', ''VBD'', ''DT'', ''NN'']"
        "[Map.empty, [''tense'' \<mapsto> ''past''], Map.empty, Map.empty]"
        "[''person'' \<mapsto> ''3'', ''num'' \<mapsto> ''sg'']" "[]"]
    by simp
  have 3: "check_subject_verb_agreement ?subj [''pos'' \<mapsto> ''VBD''] = (True, None)"
    using subject_verb_agreement[of "[]" "[]" ?subj "[]" "[''pos'' \<mapsto> ''VBD'']"]
    by (simp add: head_or_pos_def)
  show ?thesis using f 1 2 3 by blast
qed

text \<open>A verb tagged VBZ whose feature map says \<open>tense = past\<close> is not checked.\<close>

theorem past_tense_vbz_not_checked:
  "subject_verb_check (Some [''person'' \<mapsto> ''1'', ''num'' \<mapsto> ''sg''])
     [''PRP'', ''VBZ'', ''DT'', ''NN'']
     [Map.empty, [''tense'' \<mapsto> ''past''], Map.empty, Map.empty] [] = Inr [] \<and>
   check_subject_verb_agreement [''person'' \<mapsto> ''1'', ''num'' \<mapsto> ''sg'']
     [''head_pos'' \<mapsto> ''VBZ'', ''tense'' \<mapsto> ''past''] = (True, None)"
  by code_simp

text \<open>
  C8. For the first tag among VB, VBD, VBP, VBZ, VBG, VBN, when the lower-cased lemma of that
  token is in the subcategorization map: \<open>has NP\<close> and \<open>has PP\<close> are what the specification
  says, and each of the three errors is emitted exactly under its condition; nothing else is
  emitted. This holds whatever \<open>str.lower\<close> returns for the lemma.
\<close>

theorem subcategorization_errors:
  assumes "first_at (\<lambda>t. t \<in> set verb_tags) pos_tags i" "i < length fs"
    and "verb_lemma = str_lower (get_default (fs ! i) ''lemma'' '''')"
    and "verb_subcat verb_lemma = Some info"
    and "after_verb = drop (i + 1) pos_tags"
  shows "\<exists>errors. check_verb_subcategorization str_lower verb_subcat pos_tags fs = Inr errors \<and>
     (requires_preposition verb_lemma \<in> set errors \<longleftrightarrow>
        has_np_spec after_verb \<and> \<not> has_pp_spec after_verb \<and> requires_pp info) \<and>
     (no_direct_object verb_lemma \<in> set errors \<longleftrightarrow>
        has_np_spec after_verb \<and> \<not> has_pp_spec after_verb \<and> \<not> requires_pp info \<and> \<not> allows_np info) \<and>
     (requires_pp_phrase verb_lemma \<in> set errors \<longleftrightarrow>
        requires_pp info \<and> \<not> has_np_spec after_verb \<and> \<not> has_pp_spec after_verb \<and> after_verb \<noteq> []) \<and>
     set errors \<subseteq> {requires_preposition verb_lemma, no_direct_object verb_lemma,
                     requires_pp_phrase verb_lemma}"
proof -
  have f: "find_verb 0 pos_tags = Some i" using assms(1) by (simp add: find_verb_iff)
  have il: "i < length pos_tags" using assms(1) by (simp add: first_at_def)
  define has_np where "has_np = has_np_spec after_verb"
  define has_pp where "has_pp = has_pp_spec after_verb"
  have av: "(if i < length pos_tags - 1 then drop (i + 1) pos_tags else []) = after_verb"
    using il assms(5) by auto
  have ne: "i < length pos_tags - 1 \<longleftrightarrow> after_verb \<noteq> []"
    using il assms(5) by auto
  have av2: "(if after_verb \<noteq> [] then drop (i + 1) pos_tags else []) = after_verb"
    using av ne by simp
  have np: "(after_verb \<noteq> [] \<and>
       (hd after_verb \<in> set [''DT'', ''PRP'', ''NNP'', ''NNPS'', ''CD'', ''PRP$'']
        \<or> hd after_verb \<in> set [''NN'', ''NNS''])) = has_np"
    by (auto simp: has_np_spec_def has_np_def)
  have pp: "find_pp (length after_verb) 0 after_verb = has_pp"
    by (simp add: find_pp_spec has_pp_def)
  have run: "check_verb_subcategorization str_lower verb_subcat pos_tags fs =
     Inr (if requires_pp info \<and> \<not> has_pp \<and> \<not> has_np \<and> after_verb \<noteq> []
          then (if has_np \<and> \<not> has_pp
                then (if requires_pp info then [requires_preposition verb_lemma]
                      else if \<not> allows_np info then [no_direct_object verb_lemma] else [])
                else []) @ [requires_pp_phrase verb_lemma]
          else (if has_np \<and> \<not> has_pp
                then (if requires_pp info then [requires_preposition verb_lemma]
                      else if \<not> allows_np info then [no_direct_object verb_lemma] else [])
                else []))"
    unfolding check_verb_subcategorization_def f option.case lookup_features_def
      if_P[OF assms(2)] bind_err.simps assms(3)[symmetric] Let_def assms(4) av av2 np pp ne ..
  note d = messages_differ[of verb_lemma]
  show ?thesis
    unfolding run has_np_def[symmetric] has_pp_def[symmetric]
    using d d[symmetric] by (cases has_np; cases has_pp; cases "requires_pp info"; cases "allows_np info"; simp)
qed

theorem subcategorization_errors_witness:
  "first_at (\<lambda>t. t \<in> set verb_tags) [''PRP'', ''VBD'', ''DT'', ''NN''] 1 \<and>
   [''go'' \<mapsto> Info (Some False) (Some True) None] (ascii_lower (get_default [''lemma'' \<mapsto> ''Go''] ''lemma'' ''''))
      = Some (Info (Some False) (Some True) None) \<and>
   (\<exists>errors. check_verb_subcategorization ascii_lower [''go'' \<mapsto> Info (Some False) (Some True) None]
        [''PRP'', ''VBD'', ''DT'', ''NN'']
        [Map.empty, [''lemma'' \<mapsto> ''Go''], Map.empty, Map.empty] = Inr errors \<and>
      requires_preposition ''go'' \<in> set errors \<and>
      no_direct_object ''go'' \<notin> set errors \<and>
      requires_pp_phrase ''go'' \<notin> set errors)"
proof -
  let ?tags = "[''PRP'', ''VBD'', ''DT'', ''NN'']"
  let ?fs = "[Map.empty, [''lemma'' \<mapsto> ''Go''], Map.empty, Map.empty] :: features list"
  let ?info = "Info (Some False) (Some True) None"
  let ?subcat = "[''go'' \<mapsto> ?info]"
  have 1: "first_at (\<lambda>t. t \<in> set verb_tags) ?tags 1"
    by (simp add: first_at_def verb_tags_def)
  have 2: "1 < length ?fs" by simp
  have 3: "''go'' = ascii_lower (get_default (?fs ! 1) ''lemma'' '''')"
    by code_simp
  have 4: "?subcat ''go'' = Some ?info" by simp
  have 5: "[''DT'', ''NN''] = drop (1 + 1) ?tags" by simp
  have np: "has_np_spec [''DT'', ''NN'']" by (simp add: has_np_spec_def)
  have pp: "\<not> has_pp_spec [''DT'', ''NN'']"
    by (auto simp: has_pp_spec_def less_Suc_eq_0_disj)
  from subcategorization_errors[where pos_tags = ?tags and i = 1 and fs = ?fs and verb_lemma = "''go''"
      and verb_subcat = ?subcat and str_lower = ascii_lower and info = ?info and after_verb = "[''DT'', ''NN'']", OF 1 2 3 4 5] np pp
  have "\<exists>errors. check_verb_subcategorization ascii_lower ?subcat ?tags ?fs = Inr errors \<and>
      requires_preposition ''go'' \<in> set errors \<and>
      no_direct_object ''go'' \<notin> set errors \<and>
      requires_pp_phrase ''go'' \<notin> set errors"
    by auto
  then show ?thesis using 1 3 by simp
qed

section \<open>The CNF converter (cnf\_converter.py)\<close>

subsection \<open>Dictionaries of productions\<close>

text \<open>
  The grammar of the converter is a \<open>defaultdict(list)\<close>: reading \<open>d[k]\<close> for a missing key
  inserts \<open>k\<close> with the empty list. \<open>get_item\<close> is the value read, \<open>touch\<close> the dictionary after
  the read.
\<close>

definition get_item :: "grammar \<Rightarrow> symbol \<Rightarrow> production list" where
  "get_item g k = (case map_of g k of None \<Rightarrow> [] | Some ps \<Rightarrow> ps)"

definition touch :: "symbol \<Rightarrow> grammar \<Rightarrow> grammar" where
  "touch k g = (if k \<in> keys g then g else g @ [(k, [])])"

text \<open>\<open>d[k] = ps\<close>\<close>

definition set_item :: "symbol \<Rightarrow> production list \<Rightarrow> grammar \<Rightarrow> grammar" where
  "set_item k ps g =
     (if k \<in> keys g then map (\<lambda>(k', v). if k' = k then (k', ps) else (k', v)) g
      else g @ [(k, ps)])"

text \<open>\<open>d[k].append(p)\<close>\<close>

definition append_item :: "symbol \<Rightarrow> production \<Rightarrow> grammar \<Rightarrow> grammar" where
  "append_item k p g = set_item k (get_item g k @ [p]) g"

text \<open>\<open>if p not in d[k]: d[k].append(p)\<close>\<close>

definition append_new :: "symbol \<Rightarrow> production \<Rightarrow> grammar \<Rightarrow> grammar" where
  "append_new k p g = (if p \<in> set (get_item g k) then touch k g else append_item k p g)"

subsection \<open>The converter and parse\_grammar\<close>

text \<open>
  The sets \<open>terminals\<close> and \<open>non_terminals\<close> are kept as duplicate-free lists. The fields carry
  the prefix \<open>c_\<close> to keep them apart from those of the parser.
\<close>

record cfg_converter =
  c_grammar :: grammar
  c_terminals :: "symbol list"
  c_non_terminals :: "symbol list"
  c_start_symbol :: symbol
  new_var_counter :: nat

definition new_cfg_converter :: cfg_converter where
  "new_cfg_converter = \<lparr>c_grammar = [], c_terminals = [], c_non_terminals = [],
     c_start_symbol = '''', new_var_counter = 0\<rparr>"

text \<open>Productions are given as lists of symbols; \<open>['epsilon']\<close> is read as \<open>['\<epsilon>']\<close>.\<close>

definition read_production :: "production \<Rightarrow> production" where
  "read_production p = (if p = [epsilon] \<or> p = [''epsilon''] then [epsilon] else p)"

definition collect_terminals :: "symbol list \<Rightarrow> grammar \<Rightarrow> symbol list" where
  "collect_terminals nts g =
     fold (\<lambda>(nt, productions). fold (\<lambda>p. fold (\<lambda>symb ts.
        if symb \<notin> set nts \<and> symb \<noteq> epsilon then set_add symb ts else ts) p) productions) g []"

definition parse_grammar :: "grammar \<Rightarrow> symbol \<Rightarrow> cfg_converter \<Rightarrow> cfg_converter" where
  "parse_grammar grammar_rules start cv =
     (let nts = fold set_add (map fst grammar_rules) [];
          g = fold (\<lambda>(nt, productions). fold (\<lambda>p. append_item nt (read_production p)) productions)
                grammar_rules []
      in cv\<lparr>c_grammar := g, c_terminals := collect_terminals nts g, c_non_terminals := nts,
            c_start_symbol := (if start \<in> set nts then start else ''S'')\<rparr>)"

subsection \<open>Fresh variables\<close>

text \<open>The decimal digits of a number, as \<open>f"{n}"\<close> prints them.\<close>

fun str_nat :: "nat \<Rightarrow> string" where
  "str_nat n = (if n < 10 then [char_of (48 + n)]
                else str_nat (n div 10) @ [char_of (48 + n mod 10)])"

declare str_nat.simps [simp del]

text \<open>\<open>_generate_new_variable\<close>: the \<open>while True\<close> loop ends at the first unused name.\<close>

partial_function (option) generate_new_variable ::
    "string \<Rightarrow> cfg_converter \<Rightarrow> (symbol \<times> cfg_converter) option" where
  "generate_new_variable prefix cv =
     (let new_var = prefix @ str_nat (new_var_counter cv);
          cv' = cv\<lparr>new_var_counter := new_var_counter cv + 1\<rparr>
      in if new_var \<notin> set (c_non_terminals cv')
         then Some (new_var, cv'\<lparr>c_non_terminals := set_add new_var (c_non_terminals cv')\<rparr>)
         else generate_new_variable prefix cv')"

declare generate_new_variable.simps [code]

text \<open>A \<open>for\<close> loop whose body may fail to return.\<close>

fun fold_option :: "('a \<Rightarrow> 's \<Rightarrow> 's option) \<Rightarrow> 'a list \<Rightarrow> 's \<Rightarrow> 's option" where
  "fold_option f [] s = Some s"
| "fold_option f (x # xs) s = (case f x s of None \<Rightarrow> None | Some s' \<Rightarrow> fold_option f xs s')"

subsection \<open>Step 1\<close>

definition start_symbol_on_rhs :: "cfg_converter \<Rightarrow> bool" where
  "start_symbol_on_rhs cv \<longleftrightarrow>
     (\<exists>(nt, productions) \<in> set (c_grammar cv). \<exists>p \<in> set productions. c_start_symbol cv \<in> set p)"

definition step1_add_new_start_symbol :: "cfg_converter \<Rightarrow> cfg_converter option" where
  "step1_add_new_start_symbol cv =
     (if start_symbol_on_rhs cv
      then (case generate_new_variable ''S'' cv of
              None \<Rightarrow> None
            | Some (new_start, cv') \<Rightarrow>
                Some (cv'\<lparr>c_grammar := set_item new_start [[c_start_symbol cv']] (c_grammar cv'),
                         c_start_symbol := new_start\<rparr>))
      else Some cv)"

subsection \<open>Step 2\<close>

definition nullable_direct :: "grammar \<Rightarrow> symbol list" where
  "nullable_direct g =
     fold (\<lambda>(nt, productions). fold (\<lambda>p n. if p = [epsilon] then set_add nt n else n) productions) g []"

text \<open>One round of the fixed-point iteration: the nullable set after it, and \<open>changed\<close>.\<close>

definition nullable_round :: "grammar \<Rightarrow> symbol list \<Rightarrow> symbol list \<times> bool" where
  "nullable_round g nullable =
     fold (\<lambda>(nt, productions) (n, changed).
        if nt \<in> set n then (n, changed)
        else if \<exists>p \<in> set productions. \<forall>symb \<in> set p. symb \<in> set n then (set_add nt n, True)
        else (n, changed)) g (nullable, False)"

partial_function (option) nullable_loop :: "grammar \<Rightarrow> symbol list \<Rightarrow> symbol list option" where
  "nullable_loop g nullable =
     (case nullable_round g nullable of
        (nullable', changed) \<Rightarrow> if changed then nullable_loop g nullable' else Some nullable')"

declare nullable_loop.simps [code]

definition find_nullable_variables :: "cfg_converter \<Rightarrow> symbol list option" where
  "find_nullable_variables cv = nullable_loop (c_grammar cv) (nullable_direct (c_grammar cv))"

text \<open>\<open>itertools.combinations(xs, r)\<close>\<close>

fun combinations :: "'a list \<Rightarrow> nat \<Rightarrow> 'a list list" where
  "combinations xs 0 = [[]]"
| "combinations [] (Suc r) = []"
| "combinations (x # xs) (Suc r) = map ((#) x) (combinations xs r) @ combinations xs (Suc r)"

definition without_positions :: "production \<Rightarrow> nat list \<Rightarrow> production" where
  "without_positions p positions_to_remove =
     map snd (filter (\<lambda>(i, symb). i \<notin> set positions_to_remove) (zip [0..<length p] p))"

definition step2_production :: "symbol list \<Rightarrow> symbol \<Rightarrow> production \<Rightarrow> grammar \<Rightarrow> grammar" where
  "step2_production nullable nt p new_grammar =
     (if p = [epsilon] then new_grammar
      else
        let nullable_positions = filter (\<lambda>i. p ! i \<in> set nullable) [0..<length p]
        in fold (\<lambda>r. fold (\<lambda>positions_to_remove ng.
                  let new_prod = without_positions p positions_to_remove
                  in if new_prod \<noteq> [] then append_new nt new_prod ng else ng)
                (combinations nullable_positions r))
             [0..<length nullable_positions + 1] new_grammar)"

definition step2_eliminate_epsilon_productions :: "cfg_converter \<Rightarrow> cfg_converter option" where
  "step2_eliminate_epsilon_productions cv =
     (case find_nullable_variables cv of
        None \<Rightarrow> None
      | Some nullable \<Rightarrow>
          let new_grammar = fold (\<lambda>(nt, productions). fold (step2_production nullable nt) productions)
                              (c_grammar cv) [];
              new_grammar = (if c_start_symbol cv \<in> set nullable
                             then append_item (c_start_symbol cv) [epsilon] new_grammar
                             else new_grammar)
          in Some (cv\<lparr>c_grammar := new_grammar\<rparr>))"

subsection \<open>Step 3\<close>

text \<open>\<open>len(prod) == 1 and prod[0] in self.non_terminals\<close>\<close>

definition is_unit :: "cfg_converter \<Rightarrow> production \<Rightarrow> bool" where
  "is_unit cv p \<longleftrightarrow> length p = 1 \<and> p ! 0 \<in> set (c_non_terminals cv)"

definition direct_unit_pairs :: "cfg_converter \<Rightarrow> (symbol \<times> symbol) list" where
  "direct_unit_pairs cv =
     fold (\<lambda>(nt, productions). fold (\<lambda>p pairs.
              if is_unit cv p then set_add (nt, p ! 0) pairs else pairs) productions)
       (c_grammar cv)
       (fold (\<lambda>nt. set_add (nt, nt)) (c_non_terminals cv) [])"

text \<open>One round of the closure: the pairs after \<open>unit_pairs.update(new_pairs)\<close>, and \<open>changed\<close>.\<close>

definition closure_round :: "(symbol \<times> symbol) list \<Rightarrow> (symbol \<times> symbol) list \<times> bool" where
  "closure_round unit_pairs =
     (let (new_pairs, changed) =
            fold (\<lambda>(a, b). fold (\<lambda>(c, d) (np, ch).
                    if b = c \<and> (a, d) \<notin> set unit_pairs then (set_add (a, d) np, True)
                    else (np, ch)) unit_pairs)
              unit_pairs ([], False)
      in (fold set_add new_pairs unit_pairs, changed))"

partial_function (option) closure_loop ::
    "(symbol \<times> symbol) list \<Rightarrow> (symbol \<times> symbol) list option" where
  "closure_loop unit_pairs =
     (case closure_round unit_pairs of
        (unit_pairs', changed) \<Rightarrow> if changed then closure_loop unit_pairs' else Some unit_pairs')"

declare closure_loop.simps [code]

definition step3_eliminate_unit_productions :: "cfg_converter \<Rightarrow> cfg_converter option" where
  "step3_eliminate_unit_productions cv =
     (case closure_loop (direct_unit_pairs cv) of
        None \<Rightarrow> None
      | Some unit_pairs \<Rightarrow>
          Some (cv\<lparr>c_grammar :=
            fold (\<lambda>(a, b) ng.
                if b \<in> keys (c_grammar cv)
                then fold (\<lambda>p ng. if \<not> is_unit cv p then append_new a p ng else ng)
                       (get_item (c_grammar cv) b) ng
                else ng)
              unit_pairs []\<rparr>))"

subsection \<open>Step 4\<close>

text \<open>
  The state of the loops: the dictionary \<open>terminal_vars\<close>, the new grammar, and the
  converter, whose counter and non-terminals \<open>_generate_new_variable\<close> changes.
\<close>

type_synonym step4_state = "(symbol \<rightharpoonup> symbol) \<times> grammar \<times> cfg_converter"

definition step4_symbol :: "symbol \<Rightarrow> production \<times> step4_state \<Rightarrow> (production \<times> step4_state) option" where
  "step4_symbol symb = (\<lambda>(new_prod, terminal_vars, ng, cv).
     if symb \<in> set (c_terminals cv) then
       (case terminal_vars symb of
          Some v \<Rightarrow> Some (new_prod @ [v], terminal_vars, ng, cv)
        | None \<Rightarrow>
           (case generate_new_variable ''T'' cv of
              None \<Rightarrow> None
            | Some (new_var, cv') \<Rightarrow>
                Some (new_prod @ [new_var], terminal_vars(symb \<mapsto> new_var),
                      set_item new_var [[symb]] ng, cv')))
     else Some (new_prod @ [symb], terminal_vars, ng, cv))"

definition step4_production :: "symbol \<Rightarrow> production \<Rightarrow> step4_state \<Rightarrow> step4_state option" where
  "step4_production nt p = (\<lambda>(terminal_vars, ng, cv).
     if length p = 1 then Some (terminal_vars, append_new nt p ng, cv)
     else (case fold_option step4_symbol p ([], terminal_vars, ng, cv) of
             None \<Rightarrow> None
           | Some (new_prod, terminal_vars', ng', cv') \<Rightarrow>
               Some (terminal_vars', append_new nt new_prod ng', cv')))"

definition step4_replace_terminals_in_mixed_rules :: "cfg_converter \<Rightarrow> cfg_converter option" where
  "step4_replace_terminals_in_mixed_rules cv =
     (case fold_option (\<lambda>(nt, productions). fold_option (step4_production nt) productions)
             (c_grammar cv) (Map.empty, [], cv) of
        None \<Rightarrow> None
      | Some (terminal_vars, ng, cv') \<Rightarrow> Some (cv'\<lparr>c_grammar := ng\<rparr>))"

subsection \<open>Step 5\<close>

text \<open>The loop over \<open>range(len(prod) - 2)\<close>: the state is \<open>current_nt\<close>, the new grammar, the converter.\<close>

definition step5_link :: "production \<Rightarrow> nat \<Rightarrow> symbol \<times> grammar \<times> cfg_converter
    \<Rightarrow> (symbol \<times> grammar \<times> cfg_converter) option" where
  "step5_link p i = (\<lambda>(current_nt, ng, cv).
     case generate_new_variable ''Y'' cv of
       None \<Rightarrow> None
     | Some (new_var, cv') \<Rightarrow> Some (new_var, append_item current_nt [p ! i, new_var] ng, cv'))"

definition step5_production :: "symbol \<Rightarrow> production \<Rightarrow> grammar \<times> cfg_converter
    \<Rightarrow> (grammar \<times> cfg_converter) option" where
  "step5_production nt p = (\<lambda>(ng, cv).
     if length p \<le> 2 then Some (append_new nt p ng, cv)
     else (case fold_option (step5_link p) [0..<length p - 2] (nt, ng, cv) of
             None \<Rightarrow> None
           | Some (current_nt, ng', cv') \<Rightarrow>
               Some (append_item current_nt [p ! (length p - 2), p ! (length p - 1)] ng', cv')))"

definition step5_break_long_productions :: "cfg_converter \<Rightarrow> cfg_converter option" where
  "step5_break_long_productions cv =
     (case fold_option (\<lambda>(nt, productions). fold_option (step5_production nt) productions)
             (c_grammar cv) ([], cv) of
        None \<Rightarrow> None
      | Some (ng, cv') \<Rightarrow> Some (cv'\<lparr>c_grammar := ng\<rparr>))"

subsection \<open>convert\_to\_cnf and is\_valid\_cnf\<close>

definition convert_to_cnf :: "cfg_converter \<Rightarrow> cfg_converter option" where
  "convert_to_cnf cv =
     Option.bind (step1_add_new_start_symbol cv) (\<lambda>cv.
     Option.bind (step2_eliminate_epsilon_productions cv) (\<lambda>cv.
     Option.bind (step3_eliminate_unit_productions cv) (\<lambda>cv.
     Option.bind (step4_replace_terminals_in_mixed_rules cv) step5_break_long_productions)))"

definition is_valid_cnf :: "cfg_converter \<Rightarrow> bool" where
  "is_valid_cnf cv \<longleftrightarrow>
     (\<forall>(nt, productions) \<in> set (c_grammar cv). \<forall>p \<in> set productions.
        if p = [epsilon] then
          nt = c_start_symbol cv \<and>
          \<not> (\<exists>(nt', prods) \<in> set (c_grammar cv). \<exists>q \<in> set prods. c_start_symbol cv \<in> set q)
        else if length p = 1 then p ! 0 \<in> set (c_terminals cv)
        else if length p = 2 then p ! 0 \<in> set (c_non_terminals cv) \<and> p ! 1 \<in> set (c_non_terminals cv)
        else False)"


text \<open>\<open>CKYParser.load_grammar_from_converter\<close>\<close>

definition load_grammar_from_converter :: "cfg_converter \<Rightarrow> parser \<Rightarrow> parser" where
  "load_grammar_from_converter cv p = load_grammar (c_grammar cv) (c_start_symbol cv) p"

subsection \<open>A terminal that carries the name of the new start symbol\<close>

text \<open>
  \<open>_generate_new_variable\<close> compares a candidate with the non-terminals only. In the
  grammar \<open>S \<rightarrow> \<epsilon> | S S0\<close> the symbol \<open>S0\<close> is a terminal; Step 1 takes \<open>S0\<close> for the new start
  symbol, and from then on Steps 2 and 3 read the terminal as that non-terminal.
\<close>

definition clash_grammar :: grammar where
  "clash_grammar = [(''S'', [[epsilon], [''S'', ''S0'']])]"

text \<open>
  C5. The pipeline's output for \<open>clash_grammar\<close> keeps \<open>S \<rightarrow> \<epsilon>\<close> although the start symbol is
  \<open>S0\<close>, and \<open>is_valid_cnf\<close> returns \<open>False\<close> on it.
\<close>

theorem clash_grammar_not_cnf:
  "map_option (\<lambda>cv. (c_grammar cv, c_start_symbol cv, is_valid_cnf cv))
     (convert_to_cnf (parse_grammar clash_grammar ''S'' new_cfg_converter))
   = Some ([(''T1'', [[''S0'']]),
            (''S'', [[''S'', ''T1''], [epsilon]]),
            (''S0'', [[epsilon], [''S'', ''T1'']])], ''S0'', False)"
  by code_simp

theorem clash_grammar_not_cnf_witness:
  "map_option is_valid_cnf (convert_to_cnf (parse_grammar clash_grammar ''S'' new_cfg_converter))
     = Some False"
  using clash_grammar_not_cnf
  by (cases "convert_to_cnf (parse_grammar clash_grammar ''S'' new_cfg_converter)") auto

text \<open>
  C1. The sentence \<open>S0\<close> is in the language of \<open>clash_grammar\<close>, and the parser loaded with the
  pipeline's output rejects it.
\<close>

theorem clash_grammar_language_changed:
  "derives clash_grammar [''S''] [''S0''] \<and>
   map_option (\<lambda>cv. parse 2 (load_grammar_from_converter cv new_parser) [''S0''] None)
     (convert_to_cnf (parse_grammar clash_grammar ''S'' new_cfg_converter))
   = Some (Inr (False, None))"
proof -
  have r: "rule clash_grammar ''S'' [epsilon]" "rule clash_grammar ''S'' [''S'', ''S0'']"
    by (simp_all add: rule_def clash_grammar_def)
  have k: "''S0'' \<notin> keys clash_grammar" by (simp add: keys_def clash_grammar_def)
  have "derives clash_grammar [''S0''] [''S0'']"
    using k by (intro derives.intros)
  then have "derives clash_grammar [''S'', ''S0''] [''S0'']"
    by (rule derives.d_eps[OF r(1)])
  then have "derives clash_grammar [''S''] ([''S0''] @ [])"
    using r(2) by (intro derives.d_rule[OF _ _ _ derives.d_nil]) (simp_all add: epsilon_def)
  moreover have "map_option (\<lambda>cv. parse 2 (load_grammar_from_converter cv new_parser) [''S0''] None)
     (convert_to_cnf (parse_grammar clash_grammar ''S'' new_cfg_converter))
   = Some (Inr (False, None))"
    by code_simp
  ultimately show ?thesis by simp
qed

end
